theory Spec2Isabelle
  imports Main
begin

text \<open>
  A shallow embedding of the chat relay of \<open>server.c\<close> and \<open>client.c\<close>: the line
  framer, the protocol state machine and the broadcast loop of \<open>process_client_data\<close>,
  the readiness pass and the cleanup of the server's \<open>main\<close>, the two nickname
  validators, and the client up to its handshake. The system calls are the environment's:
  their outcomes are parameters, and the calls the server makes are recorded in a trace.
\<close>

section \<open>Strings of the wire protocol\<close>

text \<open>
  A \<open>std::string\<close> is a list of bytes; \<open>string\<close> (\<open>char list\<close>) has exactly
  that shape. The two characters the server treats specially:
\<close>

definition nl :: char where
  "nl = CHR 0x0A"

definition cr :: char where
  "cr = CHR 0x0D"

text \<open>
  \<open>chomp\<close> (server.c): pop the last character while the string is non-empty and
  ends in a line feed or a carriage return.
\<close>

function chomp :: "string \<Rightarrow> string" where
  "chomp s = (if s \<noteq> [] \<and> (last s = nl \<or> last s = cr) then chomp (butlast s) else s)"
  by pat_completeness auto
termination
  by (relation "measure length") (auto simp: less_Suc_eq_le intro: diff_less)

declare chomp.simps [simp del]

text \<open>\<open>s.find(c)\<close>: the index of the first occurrence, or \<open>npos\<close> (here \<open>None\<close>).\<close>

fun find_chr :: "char \<Rightarrow> string \<Rightarrow> nat option" where
  "find_chr c [] = None"
| "find_chr c (x # xs) =
     (if x = c then Some 0 else (case find_chr c xs of None \<Rightarrow> None | Some n \<Rightarrow> Some (Suc n)))"

text \<open>\<open>line.rfind(p, 0) == 0\<close>: the line starts with \<open>p\<close>.\<close>

definition starts_with :: "string \<Rightarrow> string \<Rightarrow> bool" where
  "starts_with p line = (take (length p) line = p)"

section \<open>The nickname pattern\<close>

text \<open>
  Both programs build \<open>std::regex("^[A-Za-z0-9_]{1,12}$")\<close> and ask
  \<open>regex_match\<close>, which succeeds when the whole string matches. The pattern is one
  bracket expression under a counted repetition, so the embedding has a bracket
  expression (a list of ranges and single characters, compared by character code) and a
  matcher for a counted repetition of it against a whole string.
\<close>

datatype bracket_item = Range char char | Single char

fun in_item :: "bracket_item \<Rightarrow> char \<Rightarrow> bool" where
  "in_item (Range lo hi) c =
     ((of_char lo :: nat) \<le> of_char c \<and> (of_char c :: nat) \<le> of_char hi)"
| "in_item (Single x) c = (c = x)"

fun in_bracket :: "bracket_item list \<Rightarrow> char \<Rightarrow> bool" where
  "in_bracket [] c = False"
| "in_bracket (b # bs) c = (in_item b c \<or> in_bracket bs c)"

text \<open>
  \<open>match_counted bs lo hi s\<close>: the whole of \<open>s\<close> is between \<open>lo\<close> and \<open>hi\<close>
  characters, each in the bracket expression \<open>bs\<close>.
\<close>

fun match_counted :: "bracket_item list \<Rightarrow> nat \<Rightarrow> nat \<Rightarrow> string \<Rightarrow> bool" where
  "match_counted bs lo hi [] = (lo = 0)"
| "match_counted bs lo hi (c # cs) =
     (0 < hi \<and> in_bracket bs c \<and> match_counted bs (lo - 1) (hi - 1) cs)"

definition nick_bracket :: "bracket_item list" where
  "nick_bracket =
     [Range CHR ''A'' CHR ''Z'', Range CHR ''a'' CHR ''z'', Range CHR ''0'' CHR ''9'',
      Single CHR ''_'']"

text \<open>\<open>is_valid_nick\<close> (server.c).\<close>

definition is_valid_nick :: "string \<Rightarrow> bool" where
  "is_valid_nick s = match_counted nick_bracket 1 12 s"

text \<open>
  \<open>NetworkClient::isNicknameValid\<close> (client.c): a length test first (with a message
  on standard error, not modelled), then the same pattern.
\<close>

definition isNicknameValid :: "string \<Rightarrow> bool" where
  "isNicknameValid nickname =
     (if length nickname > 12 then False else match_counted nick_bracket 1 12 nickname)"

text \<open>The characters the specification allows in a nickname, written out.\<close>

definition nick_chars :: string where
  "nick_chars = ''ABCDEFGHIJKLMNOPQRSTUVWXYZabcdefghijklmnopqrstuvwxyz0123456789_''"

definition matches_nick_pattern :: "string \<Rightarrow> bool" where
  "matches_nick_pattern s =
     (1 \<le> length s \<and> length s \<le> 12 \<and> list_all (\<lambda>c. c \<in> set nick_chars) s)"

section \<open>Connections and the network\<close>

text \<open>\<open>class Client\<close> (server.c): descriptor, nickname, input accumulator, state.\<close>

record client =
  fd :: int
  nick :: string
  inbuf :: string
  registered :: bool

text \<open>\<open>Client(int f)\<close>: the constructor leaves both strings empty.\<close>

definition new_client :: "int \<Rightarrow> client" where
  "new_client f = \<lparr>fd = f, nick = [], inbuf = [], registered = False\<rparr>"

text \<open>
  The server talks to its peers through \<open>send\<close>, \<open>recv\<close> and \<open>close\<close>. The
  embedding records each \<open>send\<close> and \<open>close\<close> the server issues, in order, with the
  outcome of the \<open>send\<close>. The outcome is the environment's choice: \<open>broken\<close> lists
  the descriptors on which \<open>send\<close> returns a negative count; on every other descriptor
  it takes the whole message. Lines written to standard output and standard error are
  left out.
\<close>

datatype syscall = SendOk int string | SendErr int string | Close int

record net =
  broken :: "int list"
  trace :: "syscall list"

definition emit :: "syscall list \<Rightarrow> net \<Rightarrow> net" where
  "emit es w = w\<lparr>trace := trace w @ es\<rparr>"

text \<open>What a peer has been sent on descriptor \<open>f\<close>, and whether \<open>f\<close> was closed.\<close>

fun delivered :: "int \<Rightarrow> syscall list \<Rightarrow> string list" where
  "delivered f [] = []"
| "delivered f (SendOk g m # es) = (if g = f then m # delivered f es else delivered f es)"
| "delivered f (SendErr g m # es) = delivered f es"
| "delivered f (Close g # es) = delivered f es"

fun attempts :: "int \<Rightarrow> syscall list \<Rightarrow> nat" where
  "attempts f [] = 0"
| "attempts f (SendOk g m # es) = (if g = f then Suc (attempts f es) else attempts f es)"
| "attempts f (SendErr g m # es) = (if g = f then Suc (attempts f es) else attempts f es)"
| "attempts f (Close g # es) = attempts f es"

text \<open>\<open>send_response\<close> (server.c): one \<open>send\<close>; on a negative count, \<open>close\<close>.\<close>

definition send_response :: "int \<Rightarrow> string \<Rightarrow> net \<Rightarrow> net" where
  "send_response clientFd message w =
     (if clientFd \<in> set (broken w)
      then emit [SendErr clientFd message, Close clientFd] w
      else emit [SendOk clientFd message] w)"

section \<open>The protocol state machine\<close>

text \<open>
  The \<open>for (auto &dst : clients)\<close> loop inside \<open>process_client_data\<close>: every
  entry with a non-negative descriptor other than the sender's is sent the message.
\<close>

fun broadcast :: "int \<Rightarrow> string \<Rightarrow> client list \<Rightarrow> net \<Rightarrow> net" where
  "broadcast sender_fd full_message [] w = w"
| "broadcast sender_fd full_message (dst # rest) w =
     broadcast sender_fd full_message rest
       (if fd dst \<ge> 0 \<and> fd dst \<noteq> sender_fd then send_response (fd dst) full_message w else w)"

text \<open>
  The body of the \<open>while\<close> loop of \<open>process_client_data\<close> once a line has been
  cut from the accumulator: \<open>chomp\<close>, then the dispatch on the connection's state.
  \<open>client\<close> is \<open>clients[i]\<close>, a reference into the vector.
\<close>

definition handle_line :: "nat \<Rightarrow> string \<Rightarrow> client list \<Rightarrow> net \<Rightarrow> client list \<times> net" where
  "handle_line i raw clients w =
     (let line = chomp raw; client = clients ! i in
      if \<not> registered client then
        if starts_with ''NICK '' line then
          let nick' = drop 5 line in
          if is_valid_nick nick' then
            (clients[i := client\<lparr>nick := nick', registered := True\<rparr>],
             send_response (fd client) (''OK'' @ [nl]) w)
          else (clients, send_response (fd client) (''ERROR: Invalid nickname format'' @ [nl]) w)
        else (clients, send_response (fd client) (''ERROR: NICK command expected'' @ [nl]) w)
      else
        if starts_with ''MSG '' line then
          let message = chomp (drop 4 line) in
          if length message > 255 then
            (clients, send_response (fd client) (''ERROR: Message too long'' @ [nl]) w)
          else
            (clients,
             broadcast (fd client) (''MSG '' @ nick client @ '' '' @ message @ [nl]) clients w)
        else (clients, send_response (fd client) (''ERROR: Unsupported command'' @ [nl]) w))"

lemma find_chr_less: "find_chr c s = Some n \<Longrightarrow> n < length s"
  by (induction s arbitrary: n) (auto split: if_splits option.splits)

lemma handle_line_length: "length (fst (handle_line i raw clients w)) = length clients"
  by (simp add: handle_line_def Let_def)

lemma handle_line_inbuf:
  "inbuf (fst (handle_line i raw clients w) ! j) = inbuf (clients ! j)"
  by (cases "i < length clients"; cases "i = j")
    (simp_all add: handle_line_def Let_def list_update_beyond)

text \<open>
  \<open>process_client_data\<close> (server.c): while the accumulator of \<open>clients[i]\<close> holds a
  line feed, cut the line before it, erase it with the line feed, and handle it. The
  source is handed a reference into the vector; an index outside it cannot occur there
  and leaves everything as it is here.
\<close>

function process_client_data :: "nat \<Rightarrow> client list \<Rightarrow> net \<Rightarrow> client list \<times> net" where
  "process_client_data i clients w =
     (if i < length clients then
        (case find_chr nl (inbuf (clients ! i)) of
           None \<Rightarrow> (clients, w)
         | Some pos \<Rightarrow>
             (let client = clients ! i;
                  line = take pos (inbuf client);
                  clients1 = clients[i := client\<lparr>inbuf := drop (pos + 1) (inbuf client)\<rparr>];
                  r = handle_line i line clients1 w
              in process_client_data i (fst r) (snd r)))
      else (clients, w))"
  by pat_completeness auto
termination
proof (relation "measure (\<lambda>(i, clients, w). length (inbuf (clients ! i)))")
  show "wf (measure (\<lambda>(i, clients, w). length (inbuf (clients ! i))))"
    by simp
next
  fix i :: nat and clients :: "client list" and w :: net and pos client line clients1 r
  assume "i < length clients"
    and "find_chr nl (inbuf (clients ! i)) = Some pos"
    and "client = clients ! i"
    and "clients1 = clients[i := client\<lparr>inbuf := drop (pos + 1) (inbuf client)\<rparr>]"
    and "r = handle_line i line clients1 w"
  then show "((i, fst r, snd r), (i, clients, w))
      \<in> measure (\<lambda>(i, clients, w). length (inbuf (clients ! i)))"
    using find_chr_less [of nl "inbuf (clients ! i)" pos]
    by (simp add: handle_line_inbuf case_prod_unfold)
qed

declare process_client_data.simps [simp del]

lemma process_client_data_length:
  "length (fst (process_client_data i clients w)) = length clients"
proof (induction i clients w rule: process_client_data.induct)
  case (1 i clients w)
  show ?case
  proof (cases "i < length clients")
    case False
    then show ?thesis by (simp add: process_client_data.simps)
  next
    case True
    show ?thesis
    proof (cases "find_chr nl (inbuf (clients ! i))")
      case None
      with True show ?thesis by (simp add: process_client_data.simps)
    next
      case (Some pos)
      with True "1.IH" [OF True Some refl refl refl refl] show ?thesis
        by (subst process_client_data.simps) (simp add: Let_def handle_line_length)
    qed
  qed
qed

section \<open>The line framer\<close>

text \<open>
  The framing part of the loop of \<open>process_client_data\<close>, on its own: the lines cut
  from a buffer (before \<open>chomp\<close>) and what stays in the accumulator.
\<close>

function frame :: "string \<Rightarrow> string list \<times> string" where
  "frame buf =
     (case find_chr nl buf of
        None \<Rightarrow> ([], buf)
      | Some pos \<Rightarrow> (let r = frame (drop (pos + 1) buf) in (take pos buf # fst r, snd r)))"
  by pat_completeness auto
termination
  by (relation "measure length") (auto dest: find_chr_less)

declare frame.simps [simp del]

text \<open>
  \<open>recv_into\<close> appends what \<open>recv\<close> returned to the accumulator; the framer then
  runs on the accumulator. \<open>feed_chunks\<close> does this for a sequence of chunks, collecting
  the lines in the order they come out.
\<close>

fun feed_chunks :: "string \<Rightarrow> string list \<Rightarrow> string list \<times> string" where
  "feed_chunks buf [] = ([], buf)"
| "feed_chunks buf (chunk # chunks) =
     (let r = frame (buf @ chunk); r' = feed_chunks (snd r) chunks in (fst r @ fst r', snd r'))"

text \<open>Handling a list of lines in order, as the loop does with the lines it cuts.\<close>

fun handle_lines :: "nat \<Rightarrow> string list \<Rightarrow> client list \<Rightarrow> net \<Rightarrow> client list \<times> net" where
  "handle_lines i [] clients w = (clients, w)"
| "handle_lines i (l # ls) clients w =
     (let r = handle_line i l clients w in handle_lines i ls (fst r) (snd r))"

section \<open>The readiness loop\<close>

text \<open>
  What \<open>recv\<close> hands back: the bytes read (none at all when the peer has closed), or an
  error. \<open>recv_count\<close> is the \<open>ssize_t\<close> the call returns. The buffer of
  \<open>recv_into\<close> bounds a chunk by 1024 bytes; nothing below depends on the bound.
\<close>

datatype recv_result = Received string | RecvError

fun recv_count :: "recv_result \<Rightarrow> int" where
  "recv_count (Received bytes) = int (length bytes)"
| "recv_count RecvError = - 1"

fun recv_bytes :: "recv_result \<Rightarrow> string" where
  "recv_bytes (Received bytes) = bytes"
| "recv_bytes RecvError = []"

text \<open>\<open>recv_into\<close> (server.c): append when the count is positive; return the count.\<close>

definition recv_into :: "client \<Rightarrow> recv_result \<Rightarrow> int \<times> client" where
  "recv_into c r =
     (let n = recv_count r in
      (n, if n > 0 then c\<lparr>inbuf := inbuf c @ recv_bytes r\<rparr> else c))"

text \<open>
  The \<open>for (size_t i = 0; i < clients.size(); ++i)\<close> loop of \<open>main\<close>. The
  readiness set and the reads of the pass are the environment's: \<open>rd\<close> maps each
  descriptor that \<open>select\<close> reported readable to what \<open>recv\<close> returns on it.
  \<open>to_remove\<close> is the vector of marked indices. \<open>mark_for_removal\<close> is what the
  two failure branches both do: \<open>close(client.fd)\<close>, \<open>client.fd = -1\<close>,
  \<open>to_remove.push_back(i)\<close>.
\<close>

definition mark_for_removal ::
  "nat \<Rightarrow> client list \<Rightarrow> net \<Rightarrow> int list \<Rightarrow> client list \<times> net \<times> int list" where
  "mark_for_removal i clients w to_remove =
     (clients[i := (clients ! i)\<lparr>fd := - 1\<rparr>],
      emit [Close (fd (clients ! i))] w,
      to_remove @ [int i])"

text \<open>The body of the loop for the index \<open>i\<close>, which is inside the vector.\<close>

definition pass_body ::
  "(int \<times> recv_result) list \<Rightarrow> nat \<Rightarrow> client list \<Rightarrow> net \<Rightarrow> int list
     \<Rightarrow> client list \<times> net \<times> int list" where
  "pass_body rd i clients w to_remove =
     (let client = clients ! i in
      if fd client < 0 then (clients, w, to_remove)
      else
        (case map_of rd (fd client) of
           None \<Rightarrow> (clients, w, to_remove)
         | Some r \<Rightarrow>
             (let n = fst (recv_into client r);
                  clients1 = clients[i := snd (recv_into client r)]
              in if n = 0 then mark_for_removal i clients1 w to_remove
                 else if n < 0 then mark_for_removal i clients1 w to_remove
                 else
                   (let r' = process_client_data i clients1 w
                    in (fst r', snd r', to_remove)))))"

lemma pass_body_length: "length (fst (pass_body rd i clients w to_remove)) = length clients"
  by (simp add: pass_body_def Let_def mark_for_removal_def process_client_data_length
      split: option.splits)

function read_pass ::
  "(int \<times> recv_result) list \<Rightarrow> nat \<Rightarrow> client list \<Rightarrow> net \<Rightarrow> int list
     \<Rightarrow> client list \<times> net \<times> int list" where
  "read_pass rd i clients w to_remove =
     (if i < length clients then
        (let s = pass_body rd i clients w to_remove
         in read_pass rd (i + 1) (fst s) (fst (snd s)) (snd (snd s)))
      else (clients, w, to_remove))"
  by pat_completeness auto
termination
  by (relation "measure (\<lambda>(rd, i, clients, w, to_remove). length clients - i)")
    (simp_all add: pass_body_length case_prod_unfold)

declare read_pass.simps [simp del]

text \<open>
  The cleanup after the pass: the marked indices in descending order
  (\<open>std::sort\<close> with \<open>std::greater\<close>), each erased when it is inside the vector, its
  descriptor closed first when it is still non-negative. The indices are stored as
  \<open>int\<close>; \<open>select\<close> bounds the number of connections far below the range of
  \<open>int\<close>, so the conversion from \<open>size_t\<close> is taken to keep the value.
\<close>

fun erase_marked :: "int list \<Rightarrow> client list \<Rightarrow> net \<Rightarrow> client list \<times> net" where
  "erase_marked [] clients w = (clients, w)"
| "erase_marked (idx # rest) clients w =
     (if idx \<ge> 0 \<and> idx < int (length clients) then
        erase_marked rest (take (nat idx) clients @ drop (Suc (nat idx)) clients)
          (if fd (clients ! nat idx) \<ge> 0 then emit [Close (fd (clients ! nat idx))] w else w)
      else erase_marked rest clients w)"

definition cleanup :: "int list \<Rightarrow> client list \<Rightarrow> net \<Rightarrow> client list \<times> net" where
  "cleanup to_remove clients w =
     (if to_remove \<noteq> [] then erase_marked (rev (sort to_remove)) clients w else (clients, w))"

text \<open>
  The accept step: \<open>accepted\<close> is \<open>None\<close> when the listening descriptor is not
  readable, else what \<open>accept\<close> returned. The greeting goes out through \<open>send\<close>
  itself, whose result the source ignores.
\<close>

definition accept_step :: "int option \<Rightarrow> client list \<Rightarrow> net \<Rightarrow> client list \<times> net" where
  "accept_step accepted clients w =
     (case accepted of
        None \<Rightarrow> (clients, w)
      | Some cfd \<Rightarrow>
          if cfd \<ge> 0 then
            (clients @ [new_client cfd],
             emit [if cfd \<in> set (broken w) then SendErr cfd (''HELLO 1.0'' @ [nl])
                   else SendOk cfd (''HELLO 1.0'' @ [nl])] w)
          else (clients, w))"

text \<open>One turn of the \<open>while (running)\<close> loop after \<open>select\<close> has returned.\<close>

definition loop_iteration ::
  "int option \<Rightarrow> (int \<times> recv_result) list \<Rightarrow> client list \<Rightarrow> net \<Rightarrow> client list \<times> net" where
  "loop_iteration accepted rd clients w =
     (let a = accept_step accepted clients w;
          p = read_pass rd 0 (fst a) (snd a) []
      in cleanup (snd (snd p)) (fst p) (fst (snd p)))"

section \<open>The client up to the handshake\<close>

text \<open>\<open>s.find(sub) != npos\<close>: \<open>sub\<close> occurs somewhere in \<open>s\<close>.\<close>

fun contains :: "string \<Rightarrow> string \<Rightarrow> bool" where
  "contains sub [] = (sub = [])"
| "contains sub (c # cs) = (starts_with sub (c # cs) \<or> contains sub cs)"

text \<open>
  \<open>NetworkClient::splitHostPort\<close> (client.c): split at the first colon; both parts
  must be non-empty.
\<close>

definition splitHostPort :: "string \<Rightarrow> (string \<times> string) option" where
  "splitHostPort address =
     (case find_chr CHR '':'' address of
        None \<Rightarrow> None
      | Some colonPos \<Rightarrow>
          (let host = take colonPos address; port = drop (colonPos + 1) address
           in if host = [] \<or> port = [] then None else Some (host, port)))"

text \<open>
  What the client does to the outside, in order, and what the outside answers. One turn
  of the greeting loop of \<open>startCommunication\<close> either finds the socket readable and
  reads from it, or times out; \<open>secs\<close> is the whole seconds elapsed since the loop
  began, as read at the end of that turn. \<open>SendLine\<close> is a \<open>send\<close> that succeeded.
\<close>

datatype client_action = Connect string string | SendLine string | CloseSocket

datatype greet_event = Readable recv_result nat | Idle nat

record client_env =
  connect_fd :: int
  greeting :: "greet_event list"
  nick_send_fails :: bool

text \<open>
  The greeting loop: \<open>Some True\<close> when the greeting arrived, \<open>Some False\<close> when the
  loop gave up, \<open>None\<close> when the events given end while the loop is still waiting.
\<close>

fun await_greeting :: "string \<Rightarrow> greet_event list \<Rightarrow> bool option" where
  "await_greeting greetingBuffer [] = None"
| "await_greeting greetingBuffer (Readable r secs # es) =
     (if recv_count r \<le> 0 then Some False
      else
        (let greetingBuffer' = greetingBuffer @ recv_bytes r in
         if contains ''HELLO 1'' greetingBuffer' \<or> contains ''HELLO 1.0'' greetingBuffer'
         then Some True
         else if secs > 5 then Some False
         else await_greeting greetingBuffer' es))"
| "await_greeting greetingBuffer (Idle secs # es) =
     (if secs > 5 then Some False else await_greeting greetingBuffer es)"

text \<open>
  \<open>NetworkClient::startCommunication\<close> (client.c) up to the call of
  \<open>receiveServerMessages\<close>, which is the session loop and is not part of this
  embedding. The result is the actions taken and whether a \<open>runtime_error\<close> was thrown
  (\<open>handleError\<close> closes the socket and throws).
\<close>

definition startCommunication ::
  "string \<Rightarrow> string \<Rightarrow> string \<Rightarrow> client_env \<Rightarrow> (client_action list \<times> bool) option" where
  "startCommunication serverHost serverPort userNickname env =
     (if connect_fd env < 0 then Some ([Connect serverHost serverPort], False)
      else
        (case await_greeting [] (greeting env) of
           None \<Rightarrow> None
         | Some greetingReceived \<Rightarrow>
             if \<not> greetingReceived then
               Some ([Connect serverHost serverPort, CloseSocket], True)
             else if nick_send_fails env then
               Some ([Connect serverHost serverPort, CloseSocket], True)
             else
               Some ([Connect serverHost serverPort,
                      SendLine (''NICK '' @ userNickname @ [nl])], False)))"

text \<open>
  \<open>main\<close> (client.c): the argument count, the constructor (which only splits the
  address), then \<open>startCommunication\<close>; a \<open>runtime_error\<close> gives exit status 1.
  \<open>argv\<close> is given without the program name.
\<close>

definition client_main :: "string list \<Rightarrow> client_env \<Rightarrow> (client_action list \<times> int) option" where
  "client_main argv env =
     (case argv of
        [serverAddress, nickname] \<Rightarrow>
          (case splitHostPort serverAddress of
             None \<Rightarrow> Some ([], 1)
           | Some (host, port) \<Rightarrow>
               (case startCommunication host port nickname env of
                  None \<Rightarrow> None
                | Some (acts, thrown) \<Rightarrow> Some (acts, if thrown then 1 else 0)))
      | _ \<Rightarrow> Some ([], 1))"

section \<open>Vocabulary of the statements\<close>

text \<open>The system calls one \<open>send_response\<close> makes, given the broken descriptors.\<close>

definition send_events :: "int list \<Rightarrow> int \<Rightarrow> string \<Rightarrow> syscall list" where
  "send_events bk f m = (if f \<in> set bk then [SendErr f m, Close f] else [SendOk f m])"

text \<open>The system calls of one broadcast, recipient by recipient.\<close>

fun broadcast_events :: "int list \<Rightarrow> int \<Rightarrow> string \<Rightarrow> client list \<Rightarrow> syscall list" where
  "broadcast_events bk sender_fd m [] = []"
| "broadcast_events bk sender_fd m (dst # rest) =
     (if fd dst \<ge> 0 \<and> fd dst \<noteq> sender_fd then send_events bk (fd dst) m else [])
     @ broadcast_events bk sender_fd m rest"

text \<open>No two entries of the vector share a descriptor that is still open.\<close>

definition live_distinct :: "client list \<Rightarrow> bool" where
  "live_distinct clients = distinct (filter (\<lambda>f. f \<ge> 0) (map fd clients))"

text \<open>The invariant of a connection: registered exactly when the nickname is set.\<close>

definition conn_inv :: "client \<Rightarrow> bool" where
  "conn_inv c = (registered c \<longleftrightarrow> nick c \<noteq> [])"

text \<open>
  A connection whose read, in a pass with the reads \<open>rd\<close>, returns zero or an error.
\<close>

definition read_failed :: "(int \<times> recv_result) list \<Rightarrow> client \<Rightarrow> bool" where
  "read_failed rd c =
     (fd c \<ge> 0 \<and> (case map_of rd (fd c) of None \<Rightarrow> False | Some r \<Rightarrow> recv_count r \<le> 0))"

text \<open>The system calls made between two states of the network.\<close>

definition new_events :: "net \<Rightarrow> net \<Rightarrow> syscall list" where
  "new_events w w' = drop (length (trace w)) (trace w')"

text \<open>Sample connections and a network on which no \<open>send\<close> fails.\<close>

definition alice :: client where
  "alice = \<lparr>fd = 4, nick = ''alice'', inbuf = [], registered = True\<rparr>"

definition bob :: client where
  "bob = \<lparr>fd = 6, nick = ''bob'', inbuf = [], registered = True\<rparr>"

definition quiet_net :: net where
  "quiet_net = \<lparr>broken = [], trace = []\<rparr>"

text \<open>A text of 256 bytes, one more than the server lets through.\<close>

definition long_text :: string where
  "long_text = replicate 256 CHR ''x''"

text \<open>Replacing the accumulator of \<open>clients[i]\<close>.\<close>

definition set_inbuf :: "nat \<Rightarrow> string \<Rightarrow> client list \<Rightarrow> client list" where
  "set_inbuf i b clients = clients[i := (clients ! i)\<lparr>inbuf := b\<rparr>]"

text \<open>
  The states of the server: it starts with an empty vector, and each turn of the loop
  leads from one state to the next, whatever the environment supplies.
\<close>

inductive reachable :: "client list \<Rightarrow> net \<Rightarrow> bool" where
  start: "reachable [] w"
| turn: "reachable clients w \<Longrightarrow> loop_iteration accepted rd clients w = (clients', w')
    \<Longrightarrow> reachable clients' w'"

text \<open>The pass over the whole vector, as \<open>main\<close> runs it: from index 0, nothing marked.\<close>

definition whole_pass ::
  "(int \<times> recv_result) list \<Rightarrow> client list \<Rightarrow> net \<Rightarrow> client list \<times> net \<times> int list" where
  "whole_pass rd clients w = read_pass rd 0 clients w []"

text \<open>Reads of a sample pass: a chat line on 4, end of stream on 5, an error on 6.\<close>

definition sample_reads :: "(int \<times> recv_result) list" where
  "sample_reads = [(4, Received (''MSG hi'' @ [nl])), (5, Received []), (6, RecvError)]"

text \<open>A third registered connection, and a network on which writes to its descriptor fail.\<close>

definition dave :: client where
  "dave = \<lparr>fd = 5, nick = ''dave'', inbuf = [], registered = True\<rparr>"

definition lossy_net :: net where
  "lossy_net = \<lparr>broken = [5], trace = []\<rparr>"

text \<open>A server that accepts the connection and greets within the first turn of the wait.\<close>

definition friendly_env :: client_env where
  "friendly_env =
     \<lparr>connect_fd = 3, greeting = [Readable (Received (''HELLO 1.0'' @ [nl])) 0],
      nick_send_fails = False\<rparr>"

section \<open>Facts about \<open>chomp\<close>\<close>

lemma chomp_eq: "chomp s = rev (dropWhile (\<lambda>c. c = nl \<or> c = cr) (rev s))"
proof (induction s rule: chomp.induct)
  case (1 s)
  show ?case
  proof (cases "s \<noteq> [] \<and> (last s = nl \<or> last s = cr)")
    case True
    then have "chomp s = chomp (butlast s)" by (subst chomp.simps) simp
    also have "\<dots> = rev (dropWhile (\<lambda>c. c = nl \<or> c = cr) (rev (butlast s)))"
      using "1.IH" True by blast
    also have "\<dots> = rev (dropWhile (\<lambda>c. c = nl \<or> c = cr) (rev s))"
      using True by (cases s rule: rev_cases) auto
    finally show ?thesis .
  next
    case False
    then have "chomp s = s" by (subst chomp.simps) auto
    moreover have "rev (dropWhile (\<lambda>c. c = nl \<or> c = cr) (rev s)) = s"
      using False by (cases s rule: rev_cases) auto
    ultimately show ?thesis by simp
  qed
qed

lemma chomp_Nil [simp]: "chomp [] = []"
  by (simp add: chomp_eq)

lemma chomp_idem: "chomp (chomp s) = chomp s"
  by (simp add: chomp_eq dropWhile_idem)

lemma chomp_length: "length (chomp s) \<le> length s"
  by (simp add: chomp_eq) (metis length_dropWhile_le length_rev)

lemma chomp_fixed_iff: "chomp s = s \<longleftrightarrow> (s = [] \<or> (last s \<noteq> nl \<and> last s \<noteq> cr))"
proof (cases "s \<noteq> [] \<and> (last s = nl \<or> last s = cr)")
  case True
  then have "chomp s = chomp (butlast s)" by (subst chomp.simps) simp
  then have "length (chomp s) < length s"
    using chomp_length [of "butlast s"] True by (cases s) auto
  with True show ?thesis by auto
next
  case False
  then have "chomp s = s" by (subst chomp.simps) auto
  with False show ?thesis by auto
qed

lemma chomp_suffix:
  assumes "chomp s = p @ t"
  shows "chomp t = t"
proof -
  have "chomp (p @ t) = p @ t" using assms chomp_idem [of s] by simp
  then show ?thesis
    by (cases t rule: rev_cases) (auto simp: chomp_fixed_iff)
qed

section \<open>The nickname validator\<close>

lemma in_bracket_nick: "in_bracket nick_bracket c \<longleftrightarrow> c \<in> set nick_chars"
  by (cases c) (simp add: nick_bracket_def nick_chars_def; fastforce)

lemma in_bracket_nick_fun: "in_bracket nick_bracket = (\<lambda>c. c \<in> set nick_chars)"
  by (rule ext) (rule in_bracket_nick)

lemma match_counted_iff:
  "match_counted bs lo hi s \<longleftrightarrow>
     lo \<le> length s \<and> length s \<le> hi \<and> list_all (in_bracket bs) s"
  by (induction s arbitrary: lo hi) auto

lemma is_valid_nick_iff: "is_valid_nick s \<longleftrightarrow> matches_nick_pattern s"
  by (simp add: is_valid_nick_def matches_nick_pattern_def match_counted_iff
      in_bracket_nick_fun)

lemma is_valid_nick_nonempty: "is_valid_nick s \<Longrightarrow> s \<noteq> []"
  by (auto simp: is_valid_nick_iff matches_nick_pattern_def)

text \<open>
  C4. The nickname validator of the server and the one of the client accept a string
  exactly when it has between 1 and 12 characters, each an ASCII letter, a digit or the
  underscore; every other string is rejected.
\<close>

theorem nickname_validator_exact:
  "is_valid_nick s = matches_nick_pattern s \<and> isNicknameValid s = matches_nick_pattern s"
  by (auto simp: isNicknameValid_def matches_nick_pattern_def match_counted_iff
      in_bracket_nick_fun is_valid_nick_def)

theorem nickname_validator_exact_witness:
  "is_valid_nick ''alice_01'' \<and> isNicknameValid ''Bob'' \<and> \<not> is_valid_nick [] \<and>
   \<not> is_valid_nick ''bad nick'' \<and> \<not> isNicknameValid ''a@b'' \<and>
   \<not> is_valid_nick ''abcdefghijklm''"
  using nickname_validator_exact [of "''alice_01''"] nickname_validator_exact [of "''Bob''"]
    nickname_validator_exact [of "[]"] nickname_validator_exact [of "''bad nick''"]
    nickname_validator_exact [of "''a@b''"] nickname_validator_exact [of "''abcdefghijklm''"]
  by (simp add: matches_nick_pattern_def nick_chars_def)

section \<open>Traces of system calls\<close>

lemma emit_Nil [simp]: "emit [] w = w"
  by (simp add: emit_def)

lemma emit_emit [simp]: "emit b (emit a w) = emit (a @ b) w"
  by (simp add: emit_def)

lemma broken_emit [simp]: "broken (emit es w) = broken w"
  by (simp add: emit_def)

lemma trace_emit [simp]: "trace (emit es w) = trace w @ es"
  by (simp add: emit_def)

lemma send_response_emit: "send_response f m w = emit (send_events (broken w) f m) w"
  by (simp add: send_response_def send_events_def)

lemma broadcast_emit:
  "broadcast sfd m clients w = emit (broadcast_events (broken w) sfd m clients) w"
  by (induction clients arbitrary: w) (simp_all add: send_response_emit)

lemma delivered_append [simp]: "delivered f (a @ b) = delivered f a @ delivered f b"
  by (induction f a rule: delivered.induct) simp_all

lemma attempts_append [simp]: "attempts f (a @ b) = attempts f a + attempts f b"
  by (induction f a rule: attempts.induct) simp_all

lemma delivered_send_events:
  "delivered f (send_events bk g m) = (if g = f \<and> g \<notin> set bk then [m] else [])"
  by (simp add: send_events_def)

lemma attempts_send_events: "attempts f (send_events bk g m) = (if g = f then 1 else 0)"
  by (simp add: send_events_def)

lemma attempts_broadcast_sender: "attempts sfd (broadcast_events bk sfd m clients) = 0"
  by (induction clients) (simp_all add: attempts_send_events)

lemma attempts_broadcast_negative: "f < 0 \<Longrightarrow> attempts f (broadcast_events bk sfd m clients) = 0"
  by (induction clients) (auto simp: attempts_send_events)

lemma attempts_broadcast_absent:
  "f \<notin> fd ` set clients \<Longrightarrow> attempts f (broadcast_events bk sfd m clients) = 0"
  by (induction clients) (auto simp: attempts_send_events)

lemma delivered_le_attempts: "length (delivered f es) \<le> attempts f es"
  by (induction f es rule: attempts.induct) auto

lemma delivered_no_attempts: "attempts f es = 0 \<Longrightarrow> delivered f es = []"
  using delivered_le_attempts [of f es] by simp

lemma attempts_broadcast_once:
  assumes "live_distinct clients" "j < length clients" "fd (clients ! j) \<ge> 0"
    "fd (clients ! j) \<noteq> sfd"
  shows "attempts (fd (clients ! j)) (broadcast_events bk sfd m clients) = 1"
  using assms
proof (induction clients arbitrary: j)
  case Nil
  then show ?case by simp
next
  case (Cons c cs)
  show ?case
  proof (cases j)
    case 0
    with Cons.prems have "fd c \<notin> fd ` set cs"
      by (auto simp: live_distinct_def)
    with 0 Cons.prems show ?thesis
      by (simp add: attempts_send_events attempts_broadcast_absent)
  next
    case (Suc k)
    with Cons.prems have ne: "fd c \<noteq> fd (cs ! k)"
      by (auto simp: live_distinct_def)
    from Cons.prems have "live_distinct cs"
      by (auto simp: live_distinct_def split: if_splits)
    with Suc Cons.prems Cons.IH [of k] ne show ?thesis
      by (simp add: attempts_send_events)
  qed
qed

lemma delivered_broadcast_once:
  assumes "live_distinct clients" "j < length clients" "fd (clients ! j) \<ge> 0"
    "fd (clients ! j) \<noteq> sfd"
  shows "delivered (fd (clients ! j)) (broadcast_events bk sfd m clients) =
    (if fd (clients ! j) \<in> set bk then [] else [m])"
  using assms
proof (induction clients arbitrary: j)
  case Nil
  then show ?case by simp
next
  case (Cons c cs)
  show ?case
  proof (cases j)
    case 0
    with Cons.prems have "fd c \<notin> fd ` set cs"
      by (auto simp: live_distinct_def)
    then have "delivered (fd c) (broadcast_events bk sfd m cs) = []"
      by (simp add: attempts_broadcast_absent delivered_no_attempts)
    with 0 Cons.prems show ?thesis
      by (simp add: delivered_send_events)
  next
    case (Suc k)
    with Cons.prems have ne: "fd c \<noteq> fd (cs ! k)"
      by (auto simp: live_distinct_def)
    from Cons.prems have "live_distinct cs"
      by (auto simp: live_distinct_def split: if_splits)
    with Suc Cons.prems Cons.IH [of k] ne show ?thesis
      by (simp add: delivered_send_events)
  qed
qed

section \<open>The cases of one line\<close>

lemma starts_with_append [simp]: "starts_with p (p @ t)"
  by (simp add: starts_with_def)

lemma handle_line_msg:
  assumes "registered (clients ! i)" "chomp raw = ''MSG '' @ text" "length text \<le> 255"
  shows "handle_line i raw clients w =
    (clients,
     emit (broadcast_events (broken w) (fd (clients ! i))
       (''MSG '' @ nick (clients ! i) @ '' '' @ text @ [nl]) clients) w)"
proof -
  have "chomp text = text" using assms(2) by (rule chomp_suffix)
  moreover have "starts_with ''MSG '' (chomp raw)" "drop 4 (chomp raw) = text"
    using assms(2) by (simp_all add: starts_with_def)
  ultimately show ?thesis
    using assms(1,3) by (simp add: handle_line_def Let_def broadcast_emit)
qed

lemma handle_line_too_long:
  assumes "registered (clients ! i)" "chomp raw = ''MSG '' @ text" "length text > 255"
  shows "handle_line i raw clients w =
    (clients,
     emit (send_events (broken w) (fd (clients ! i)) (''ERROR: Message too long'' @ [nl])) w)"
proof -
  have "chomp text = text" using assms(2) by (rule chomp_suffix)
  moreover have "starts_with ''MSG '' (chomp raw)" "drop 4 (chomp raw) = text"
    using assms(2) by (simp_all add: starts_with_def)
  ultimately show ?thesis
    using assms(1,3) by (simp add: handle_line_def Let_def send_response_emit)
qed

lemma handle_line_nick_ok:
  assumes "\<not> registered (clients ! i)" "chomp raw = ''NICK '' @ name" "is_valid_nick name"
  shows "handle_line i raw clients w =
    (clients[i := (clients ! i)\<lparr>nick := name, registered := True\<rparr>],
     emit (send_events (broken w) (fd (clients ! i)) (''OK'' @ [nl])) w)"
proof -
  have "starts_with ''NICK '' (chomp raw)" "drop 5 (chomp raw) = name"
    using assms(2) by (simp_all add: starts_with_def)
  then show ?thesis
    using assms(1,3) by (simp add: handle_line_def Let_def send_response_emit)
qed

lemma handle_line_unregistered_error:
  assumes "\<not> registered (clients ! i)"
    "\<not> (starts_with ''NICK '' (chomp raw) \<and> is_valid_nick (drop 5 (chomp raw)))"
  shows "handle_line i raw clients w =
    (clients,
     emit (send_events (broken w) (fd (clients ! i))
       (if starts_with ''NICK '' (chomp raw) then ''ERROR: Invalid nickname format'' @ [nl]
        else ''ERROR: NICK command expected'' @ [nl])) w)"
  using assms by (auto simp: handle_line_def Let_def send_response_emit)

section \<open>Broadcast fan-out\<close>

lemma new_events_emit [simp]: "new_events w (emit es w) = es"
  by (simp add: new_events_def)

lemma distinct_filter_nth_neq:
  "distinct (filter P xs) \<Longrightarrow> i < length xs \<Longrightarrow> j < length xs \<Longrightarrow> i \<noteq> j \<Longrightarrow> P (xs ! j)
     \<Longrightarrow> xs ! j \<noteq> xs ! i"
proof (induction xs arbitrary: i j)
  case Nil
  then show ?case by simp
next
  case (Cons x xs)
  show ?case
  proof (cases i)
    case 0
    with Cons.prems obtain k where k: "j = Suc k" "k < length xs" "P (xs ! k)"
      by (cases j) auto
    then have "xs ! k \<in> set (filter P xs)" by simp
    with Cons.prems(1) k 0 show ?thesis by (auto split: if_splits)
  next
    case (Suc i')
    show ?thesis
    proof (cases j)
      case 0
      with Cons.prems Suc have "P x" "i' < length xs" by simp_all
      with Cons.prems(1) have "x \<notin> set (filter P xs)" by simp
      with \<open>P x\<close> \<open>i' < length xs\<close> have "x \<noteq> xs ! i'" by auto
      with 0 Suc show ?thesis by simp
    next
      case (Suc j')
      with Cons.prems \<open>i = Suc i'\<close> Cons.IH [of i' j'] show ?thesis
        by (auto split: if_splits)
    qed
  qed
qed

lemma live_distinct_nth_neq:
  assumes "live_distinct clients" "i < length clients" "j < length clients" "i \<noteq> j"
    "fd (clients ! j) \<ge> 0"
  shows "fd (clients ! j) \<noteq> fd (clients ! i)"
  using distinct_filter_nth_neq [of "\<lambda>f. f \<ge> 0" "map fd clients" i j] assms
  by (simp add: live_distinct_def)

lemma broadcast_events_per_recipient:
  assumes "live_distinct clients" "i < length clients" "j < length clients"
  shows "delivered (fd (clients ! j)) (broadcast_events bk (fd (clients ! i)) m clients) =
      (if j \<noteq> i \<and> fd (clients ! j) \<ge> 0 \<and> fd (clients ! j) \<notin> set bk then [m] else [])
    \<and> attempts (fd (clients ! j)) (broadcast_events bk (fd (clients ! i)) m clients) =
      (if j \<noteq> i \<and> fd (clients ! j) \<ge> 0 then 1 else 0)"
proof (cases "j \<noteq> i \<and> fd (clients ! j) \<ge> 0")
  case True
  then have "fd (clients ! j) \<noteq> fd (clients ! i)"
    using live_distinct_nth_neq [OF assms(1,2,3)] by simp
  with True assms show ?thesis
    by (simp add: delivered_broadcast_once attempts_broadcast_once)
next
  case False
  then have "attempts (fd (clients ! j)) (broadcast_events bk (fd (clients ! i)) m clients) = 0"
    by (auto simp: attempts_broadcast_sender attempts_broadcast_negative)
  with False show ?thesis
    by (auto simp: delivered_no_attempts)
qed

text \<open>
  C1 as stated does not hold: the broadcast loop tests the descriptor of each entry, never its
  \<open>registered\<close> flag. Here the connection on descriptor 5 has not registered and is
  still delivered the line that the registered sender on descriptor 4 broadcasts.
\<close>

theorem broadcast_reaches_unregistered:
  "\<not> registered (new_client 5) \<and>
   delivered 5 (new_events quiet_net
     (snd (handle_line 0 ''MSG hello'' [alice, new_client 5, bob] quiet_net))) =
   [''MSG alice hello'' @ [nl]]"
  by (simp add: handle_line_def chomp_eq starts_with_def alice_def bob_def new_client_def
      quiet_net_def send_response_def emit_def new_events_def nl_def cr_def)

text \<open>
  C1, amended. When a registered connection \<open>i\<close> processes a line \<open>MSG <text>\<close> with
  at most 255 bytes of text, and the open descriptors of the Connection Set are pairwise
  different, then no connection changes state, and every other connection with an open
  descriptor, registered or not, is sent the line \<open>MSG <sender-nick> <text>\\n\<close> exactly
  once (and is delivered it unless the write on its descriptor fails); the sender and the
  entries with a closed descriptor are sent nothing.
\<close>

theorem broadcast_fan_out:
  assumes "i < length clients" and "registered (clients ! i)"
    and "chomp raw = ''MSG '' @ text" and "length text \<le> 255"
    and "live_distinct clients"
  shows "fst (handle_line i raw clients w) = clients \<and>
    trace (snd (handle_line i raw clients w)) =
      trace w @ new_events w (snd (handle_line i raw clients w)) \<and>
    (\<forall>j < length clients.
       delivered (fd (clients ! j)) (new_events w (snd (handle_line i raw clients w))) =
         (if j \<noteq> i \<and> fd (clients ! j) \<ge> 0 \<and> fd (clients ! j) \<notin> set (broken w)
          then [''MSG '' @ nick (clients ! i) @ '' '' @ text @ [nl]] else []) \<and>
       attempts (fd (clients ! j)) (new_events w (snd (handle_line i raw clients w))) =
         (if j \<noteq> i \<and> fd (clients ! j) \<ge> 0 then 1 else 0))"
  using assms
  by (simp add: handle_line_msg broadcast_events_per_recipient)

theorem broadcast_fan_out_witness:
  "fst (handle_line 0 (''MSG hello'' @ [cr]) [alice, new_client 5, bob] quiet_net) =
     [alice, new_client 5, bob] \<and>
   delivered 4 (new_events quiet_net
     (snd (handle_line 0 (''MSG hello'' @ [cr]) [alice, new_client 5, bob] quiet_net))) = [] \<and>
   delivered 5 (new_events quiet_net
     (snd (handle_line 0 (''MSG hello'' @ [cr]) [alice, new_client 5, bob] quiet_net))) =
     [''MSG alice hello'' @ [nl]] \<and>
   delivered 6 (new_events quiet_net
     (snd (handle_line 0 (''MSG hello'' @ [cr]) [alice, new_client 5, bob] quiet_net))) =
     [''MSG alice hello'' @ [nl]]"
proof -
  let ?cs = "[alice, new_client 5, bob]"
  have h1: "0 < length ?cs" by simp
  have h2: "registered (?cs ! 0)" by (simp add: alice_def)
  have h3: "chomp (''MSG hello'' @ [cr]) = ''MSG '' @ ''hello''" by (simp add: chomp_eq nl_def cr_def)
  have h4: "length ''hello'' \<le> 255" by simp
  have h5: "live_distinct ?cs"
    by (simp add: live_distinct_def alice_def bob_def new_client_def)
  from broadcast_fan_out [OF h1 h2 h3 h4 h5, of quiet_net] show ?thesis
    by (simp add: All_less_Suc alice_def bob_def new_client_def quiet_net_def)
qed

section \<open>Replies and broadcasts of single lines\<close>

text \<open>
  C5. When a registered connection processes a line \<open>MSG <text>\<close> whose text is longer
  than 255 bytes, no connection changes state (so the sender keeps its registration and
  its nickname), the only system calls are those of the one reply
  \<open>ERROR: Message too long\<close> to the sender, which the sender is delivered when the write
  does not fail, and no other descriptor is written to.
\<close>

theorem oversized_message_rejected:
  assumes "registered (clients ! i)"
    and "chomp raw = ''MSG '' @ text" and "length text > 255"
  shows "fst (handle_line i raw clients w) = clients \<and>
    trace (snd (handle_line i raw clients w)) =
      trace w @ send_events (broken w) (fd (clients ! i)) (''ERROR: Message too long'' @ [nl]) \<and>
    (fd (clients ! i) \<notin> set (broken w) \<longrightarrow>
       delivered (fd (clients ! i)) (new_events w (snd (handle_line i raw clients w))) =
         [''ERROR: Message too long'' @ [nl]]) \<and>
    (\<forall>f. f \<noteq> fd (clients ! i) \<longrightarrow>
       attempts f (new_events w (snd (handle_line i raw clients w))) = 0)"
  using assms
  by (simp add: handle_line_too_long delivered_send_events attempts_send_events)

theorem oversized_message_rejected_witness:
  "fst (handle_line 0 (''MSG '' @ long_text) [alice, new_client 5, bob] quiet_net) =
     [alice, new_client 5, bob] \<and>
   trace (snd (handle_line 0 (''MSG '' @ long_text) [alice, new_client 5, bob] quiet_net)) =
     [SendOk 4 (''ERROR: Message too long'' @ [nl])] \<and>
   delivered 4 (new_events quiet_net
     (snd (handle_line 0 (''MSG '' @ long_text) [alice, new_client 5, bob] quiet_net))) =
     [''ERROR: Message too long'' @ [nl]] \<and>
   attempts 5 (new_events quiet_net
     (snd (handle_line 0 (''MSG '' @ long_text) [alice, new_client 5, bob] quiet_net))) = 0 \<and>
   attempts 6 (new_events quiet_net
     (snd (handle_line 0 (''MSG '' @ long_text) [alice, new_client 5, bob] quiet_net))) = 0"
proof -
  let ?cs = "[alice, new_client 5, bob]"
  have h1: "registered (?cs ! 0)" by (simp add: alice_def)
  have "last (''MSG '' @ long_text) = CHR ''x''" by (simp add: long_text_def)
  then have h2: "chomp (''MSG '' @ long_text) = ''MSG '' @ long_text"
    by (simp add: chomp_fixed_iff nl_def cr_def)
  have h3: "length long_text > 255" by (simp add: long_text_def)
  have fd0: "fd (?cs ! 0) = 4" by (simp add: alice_def)
  from oversized_message_rejected [OF h1 h2 h3, of quiet_net] show ?thesis
    unfolding fd0 by (simp add: quiet_net_def send_events_def)
qed

text \<open>
  C10. A registered connection that processes the line \<open>MSG \<close> with no text after the
  prefix is not answered at all: the line \<open>MSG <nick> \<close> followed by a line feed is
  broadcast, and each other connection with an open descriptor on which the write does not
  fail is delivered exactly that line.
\<close>

theorem empty_message_broadcast:
  assumes "i < length clients" and "registered (clients ! i)" and "chomp raw = ''MSG ''"
    and "live_distinct clients"
  shows "fst (handle_line i raw clients w) = clients \<and>
    trace (snd (handle_line i raw clients w)) =
      trace w @ broadcast_events (broken w) (fd (clients ! i))
        (''MSG '' @ nick (clients ! i) @ '' '' @ [nl]) clients \<and>
    attempts (fd (clients ! i)) (new_events w (snd (handle_line i raw clients w))) = 0 \<and>
    (\<forall>j < length clients. j \<noteq> i \<and> fd (clients ! j) \<ge> 0 \<and> fd (clients ! j) \<notin> set (broken w) \<longrightarrow>
       delivered (fd (clients ! j)) (new_events w (snd (handle_line i raw clients w))) =
         [''MSG '' @ nick (clients ! i) @ '' '' @ [nl]])"
proof -
  have "chomp raw = ''MSG '' @ []" "length ([] :: string) \<le> 255"
    using assms(3) by simp_all
  from handle_line_msg [OF assms(2) this, of w]
  have r: "handle_line i raw clients w =
      (clients, emit (broadcast_events (broken w) (fd (clients ! i))
         (''MSG '' @ nick (clients ! i) @ '' '' @ [nl]) clients) w)"
    by simp
  show ?thesis
    using assms(1,4) by (simp add: r broadcast_events_per_recipient attempts_broadcast_sender)
qed

theorem empty_message_broadcast_witness:
  "trace (snd (handle_line 0 (''MSG '' @ [cr]) [alice, new_client 5, bob] quiet_net)) =
     [SendOk 5 (''MSG alice '' @ [nl]), SendOk 6 (''MSG alice '' @ [nl])] \<and>
   attempts 4 (new_events quiet_net
     (snd (handle_line 0 (''MSG '' @ [cr]) [alice, new_client 5, bob] quiet_net))) = 0 \<and>
   delivered 6 (new_events quiet_net
     (snd (handle_line 0 (''MSG '' @ [cr]) [alice, new_client 5, bob] quiet_net))) =
     [''MSG alice '' @ [nl]]"
proof -
  let ?cs = "[alice, new_client 5, bob]"
  have h1: "0 < length ?cs" by simp
  have h2: "registered (?cs ! 0)" by (simp add: alice_def)
  have h3: "chomp (''MSG '' @ [cr]) = ''MSG ''" by (simp add: chomp_eq nl_def cr_def)
  have h4: "live_distinct ?cs"
    by (simp add: live_distinct_def alice_def bob_def new_client_def)
  from empty_message_broadcast [OF h1 h2 h3 h4, of quiet_net] show ?thesis
    by (simp add: All_less_Suc alice_def bob_def new_client_def quiet_net_def send_events_def)
qed

text \<open>
  C6. An unregistered connection with an empty nickname that processes a line other than
  \<open>NICK <name>\<close> with a valid name stays unregistered with an empty nickname, and the
  only system calls are those of one reply to it: \<open>ERROR: Invalid nickname format\<close> for
  a \<open>NICK\<close> line, \<open>ERROR: NICK command expected\<close> for any other. A valid
  \<open>NICK <name>\<close> line processed next sets the nickname, registers the connection and
  is answered \<open>OK\<close>.
\<close>

theorem unregistered_until_valid_nick:
  assumes "i < length clients" and "\<not> registered (clients ! i)" and "nick (clients ! i) = []"
    and "\<not> (starts_with ''NICK '' (chomp raw) \<and> is_valid_nick (drop 5 (chomp raw)))"
    and "chomp raw2 = ''NICK '' @ name" and "is_valid_nick name"
  shows "fst (handle_line i raw clients w) = clients \<and>
    trace (snd (handle_line i raw clients w)) =
      trace w @ send_events (broken w) (fd (clients ! i))
        (if starts_with ''NICK '' (chomp raw) then ''ERROR: Invalid nickname format'' @ [nl]
         else ''ERROR: NICK command expected'' @ [nl]) \<and>
    fst (handle_line i raw2 (fst (handle_line i raw clients w)) (snd (handle_line i raw clients w)))
      = clients[i := (clients ! i)\<lparr>nick := name, registered := True\<rparr>] \<and>
    trace (snd (handle_line i raw2 (fst (handle_line i raw clients w))
        (snd (handle_line i raw clients w)))) =
      trace (snd (handle_line i raw clients w)) @
        send_events (broken w) (fd (clients ! i)) (''OK'' @ [nl]) \<and>
    \<not> registered (fst (handle_line i raw clients w) ! i) \<and>
    nick (fst (handle_line i raw clients w) ! i) = []"
proof -
  have r: "handle_line i raw clients w =
      (clients, emit (send_events (broken w) (fd (clients ! i))
        (if starts_with ''NICK '' (chomp raw) then ''ERROR: Invalid nickname format'' @ [nl]
         else ''ERROR: NICK command expected'' @ [nl])) w)"
    using assms(2,4) by (rule handle_line_unregistered_error)
  show ?thesis
    unfolding r using assms(2,3,5,6) by (simp add: handle_line_nick_ok)
qed

theorem unregistered_until_valid_nick_witness:
  "fst (handle_line 0 ''NICK bad nick'' [new_client 5, alice] quiet_net) = [new_client 5, alice] \<and>
   trace (snd (handle_line 0 ''NICK bad nick'' [new_client 5, alice] quiet_net)) =
     [SendOk 5 (''ERROR: Invalid nickname format'' @ [nl])] \<and>
   fst (handle_line 0 (''NICK carol'' @ [cr])
       (fst (handle_line 0 ''NICK bad nick'' [new_client 5, alice] quiet_net))
       (snd (handle_line 0 ''NICK bad nick'' [new_client 5, alice] quiet_net))) =
     [\<lparr>fd = 5, nick = ''carol'', inbuf = [], registered = True\<rparr>, alice] \<and>
   trace (snd (handle_line 0 (''NICK carol'' @ [cr])
       (fst (handle_line 0 ''NICK bad nick'' [new_client 5, alice] quiet_net))
       (snd (handle_line 0 ''NICK bad nick'' [new_client 5, alice] quiet_net)))) =
     [SendOk 5 (''ERROR: Invalid nickname format'' @ [nl]), SendOk 5 (''OK'' @ [nl])]"
proof -
  let ?cs = "[new_client 5, alice]"
  have c1: "chomp ''NICK bad nick'' = ''NICK bad nick''"
    by (simp add: chomp_eq nl_def cr_def)
  have h1: "0 < length ?cs" by simp
  have h2: "\<not> registered (?cs ! 0)" by (simp add: new_client_def)
  have h3: "nick (?cs ! 0) = []" by (simp add: new_client_def)
  have h4: "\<not> (starts_with ''NICK '' (chomp ''NICK bad nick'') \<and>
      is_valid_nick (drop 5 (chomp ''NICK bad nick'')))"
    unfolding c1 by (simp add: is_valid_nick_iff matches_nick_pattern_def nick_chars_def)
  have h5: "chomp (''NICK carol'' @ [cr]) = ''NICK '' @ ''carol''"
    by (simp add: chomp_eq nl_def cr_def)
  have h6: "is_valid_nick ''carol''"
    by (simp add: is_valid_nick_iff matches_nick_pattern_def nick_chars_def)
  note t = unregistered_until_valid_nick [OF h1 h2 h3 h4 h5 h6, of quiet_net]
  note e1 = t [THEN conjunct1]
  note e2 = t [THEN conjunct2, THEN conjunct1]
  note e3 = t [THEN conjunct2, THEN conjunct2, THEN conjunct1]
  note e4 = t [THEN conjunct2, THEN conjunct2, THEN conjunct2, THEN conjunct1]
  show ?thesis
    unfolding e3 e4 unfolding e2 e1 unfolding c1
    by (simp add: new_client_def quiet_net_def send_events_def starts_with_def)
qed

section \<open>Chunk-boundary independence of the framer\<close>

lemma find_chr_None_iff: "find_chr c s = None \<longleftrightarrow> c \<notin> set s"
  by (induction s) (auto split: option.splits)

lemma find_chr_append_Some:
  "find_chr c s = Some n \<Longrightarrow> find_chr c (s @ t) = Some n"
  by (induction s arbitrary: n) (auto split: option.splits if_splits)

lemma find_chr_take: "find_chr c s = Some n \<Longrightarrow> c \<notin> set (take n s) \<and> s ! n = c"
  by (induction s arbitrary: n) (auto split: option.splits if_splits)

lemma frame_no_newline: "find_chr nl buf = None \<Longrightarrow> frame buf = ([], buf)"
  by (subst frame.simps) simp

lemma frame_newline:
  "find_chr nl buf = Some pos \<Longrightarrow>
     frame buf = (take pos buf # fst (frame (drop (Suc pos) buf)), snd (frame (drop (Suc pos) buf)))"
  by (subst frame.simps) (simp add: Let_def)

lemma frame_rest_no_newline: "find_chr nl (snd (frame buf)) = None"
proof (induction buf rule: frame.induct)
  case (1 buf)
  then show ?case
    by (cases "find_chr nl buf") (simp_all add: frame_no_newline frame_newline)
qed

lemma frame_append:
  "frame (buf @ chunk) =
     (fst (frame buf) @ fst (frame (snd (frame buf) @ chunk)),
      snd (frame (snd (frame buf) @ chunk)))"
proof (induction buf rule: frame.induct)
  case (1 buf)
  show ?case
  proof (cases "find_chr nl buf")
    case None
    then show ?thesis by (simp add: frame_no_newline)
  next
    case (Some pos)
    then have lt: "pos < length buf" by (rule find_chr_less)
    have app: "find_chr nl (buf @ chunk) = Some pos"
      using Some by (rule find_chr_append_Some)
    have "frame (buf @ chunk) =
        (take pos buf # fst (frame (drop (Suc pos) buf @ chunk)),
         snd (frame (drop (Suc pos) buf @ chunk)))"
      using lt by (simp add: frame_newline [OF app])
    with "1.IH" [OF Some] show ?thesis
      by (simp add: frame_newline [OF Some])
  qed
qed

lemma feed_chunks_frame:
  "find_chr nl buf = None \<Longrightarrow> feed_chunks buf chunks = frame (buf @ concat chunks)"
proof (induction chunks arbitrary: buf)
  case Nil
  then show ?case by (simp add: frame_no_newline)
next
  case (Cons chunk chunks)
  have "feed_chunks (snd (frame (buf @ chunk))) chunks =
      frame (snd (frame (buf @ chunk)) @ concat chunks)"
    by (rule Cons.IH) (rule frame_rest_no_newline)
  moreover have "frame (buf @ chunk @ concat chunks) =
      (fst (frame (buf @ chunk)) @ fst (frame (snd (frame (buf @ chunk)) @ concat chunks)),
       snd (frame (snd (frame (buf @ chunk)) @ concat chunks)))"
    using frame_append [of "buf @ chunk" "concat chunks"] by simp
  ultimately show ?case
    by (simp add: Let_def)
qed

text \<open>
  C7. Feeding any sequence of chunks to the framer one at a time, starting from an empty
  accumulator (append the chunk, cut every complete line, keep the partial line), gives
  the same lines in the same order, and the same retained partial line, as framing the
  concatenation of the chunks in one call.
\<close>

theorem framing_chunk_independent: "feed_chunks [] chunks = frame (concat chunks)"
  using feed_chunks_frame [of "[]" chunks] by simp

theorem framing_chunk_independent_witness:
  "feed_chunks [] [''NICK al'', ''ice'' @ [cr, nl] @ ''MSG h'', ''i'' @ [nl] @ ''MS''] =
     ([''NICK alice'' @ [cr], ''MSG hi''], ''MS'')"
  unfolding framing_chunk_independent
  by (simp add: frame.simps nl_def cr_def)

section \<open>The loop as framing followed by dispatch\<close>

lemma set_inbuf_length [simp]: "length (set_inbuf i b clients) = length clients"
  by (simp add: set_inbuf_def)

lemma set_inbuf_same [simp]: "set_inbuf i (inbuf (clients ! i)) clients = clients"
  by (simp add: set_inbuf_def)

lemma set_inbuf_twice [simp]: "set_inbuf i b (set_inbuf i a clients) = set_inbuf i b clients"
  by (cases "i < length clients") (simp_all add: set_inbuf_def list_update_beyond)

lemma set_inbuf_nth:
  "i < length clients \<Longrightarrow> set_inbuf i b clients ! i = (clients ! i)\<lparr>inbuf := b\<rparr>"
  by (simp add: set_inbuf_def)

lemma map_fd_set_inbuf [simp]: "map fd (set_inbuf i b clients) = map fd clients"
  by (cases "i < length clients")
    (simp_all add: set_inbuf_def map_update list_update_beyond list_update_same_conv)

lemma broadcast_events_map_fd:
  "map fd xs = map fd ys \<Longrightarrow> broadcast_events bk sfd m xs = broadcast_events bk sfd m ys"
proof (induction xs arbitrary: ys)
  case Nil
  then show ?case by simp
next
  case (Cons x xs)
  then obtain y ys' where "ys = y # ys'" "fd x = fd y" "map fd xs = map fd ys'"
    by (cases ys) auto
  with Cons.IH [of ys'] show ?case by simp
qed

lemma broadcast_events_update:
  assumes "fd c' = fd (clients ! i)"
  shows "broadcast_events bk sfd m (clients[i := c']) = broadcast_events bk sfd m clients"
proof (rule broadcast_events_map_fd)
  show "map fd (clients[i := c']) = map fd clients"
    using assms
    by (cases "i < length clients")
      (simp_all add: map_update list_update_beyond list_update_same_conv)
qed

lemma handle_line_set_inbuf:
  assumes "i < length clients"
  shows "handle_line i raw (set_inbuf i b clients) w =
    (set_inbuf i b (fst (handle_line i raw clients w)), snd (handle_line i raw clients w))"
proof -
  show ?thesis
    using assms
    by (cases "clients ! i")
      (simp add: handle_line_def Let_def broadcast_emit broadcast_events_update set_inbuf_def)
qed

lemma handle_line_length_fst [simp]: "length (fst (handle_line i raw clients w)) = length clients"
  by (rule handle_line_length)

lemma handle_lines_length [simp]:
  "length (fst (handle_lines i ls clients w)) = length clients"
  by (induction ls arbitrary: clients w) (simp_all add: Let_def)

lemma handle_lines_set_inbuf:
  "i < length clients \<Longrightarrow>
   handle_lines i ls (set_inbuf i b clients) w =
     (set_inbuf i b (fst (handle_lines i ls clients w)), snd (handle_lines i ls clients w))"
  by (induction ls arbitrary: clients w) (simp_all add: Let_def handle_line_set_inbuf)

text \<open>
  The loop of \<open>process_client_data\<close> is the framer followed by the handling of its
  lines in order: the lines never read the accumulator.
\<close>

lemma process_client_data_frame:
  "i < length clients \<Longrightarrow>
   process_client_data i clients w =
     (set_inbuf i (snd (frame (inbuf (clients ! i))))
        (fst (handle_lines i (fst (frame (inbuf (clients ! i)))) clients w)),
      snd (handle_lines i (fst (frame (inbuf (clients ! i)))) clients w))"
proof (induction i clients w rule: process_client_data.induct)
  case (1 i clients w)
  note lt = \<open>i < length clients\<close>
  show ?case
  proof (cases "find_chr nl (inbuf (clients ! i))")
    case None
    with lt show ?thesis
      by (subst process_client_data.simps) (simp add: frame_no_newline)
  next
    case (Some pos)
    let ?buf = "inbuf (clients ! i)"
    let ?line = "take pos ?buf"
    let ?rest = "drop (Suc pos) ?buf"
    let ?orig = "handle_line i ?line clients w"
    let ?upd = "handle_line i ?line (set_inbuf i ?rest clients) w"
    have r: "?upd = (set_inbuf i ?rest (fst ?orig), snd ?orig)"
      using lt by (rule handle_line_set_inbuf)
    have unfold: "process_client_data i clients w = process_client_data i (fst ?upd) (snd ?upd)"
      using lt Some by (subst process_client_data.simps) (simp add: Let_def set_inbuf_def)
    have len: "i < length (fst ?upd)" using lt by simp
    have ih: "process_client_data i (fst ?upd) (snd ?upd) =
        (set_inbuf i (snd (frame (inbuf (fst ?upd ! i))))
           (fst (handle_lines i (fst (frame (inbuf (fst ?upd ! i)))) (fst ?upd) (snd ?upd))),
         snd (handle_lines i (fst (frame (inbuf (fst ?upd ! i)))) (fst ?upd) (snd ?upd)))"
      using "1.IH" [OF lt Some refl refl refl refl] len
      by (simp add: set_inbuf_def)
    have buf': "inbuf (fst ?upd ! i) = ?rest"
      using lt by (simp add: handle_line_inbuf set_inbuf_nth)
    show ?thesis
      using lt
      by (simp add: unfold ih buf' frame_newline [OF Some] Let_def)
        (simp add: r handle_lines_set_inbuf)
  qed
qed

lemma handle_lines_append:
  "handle_lines i (ls @ ls') clients w =
     handle_lines i ls' (fst (handle_lines i ls clients w)) (snd (handle_lines i ls clients w))"
  by (induction ls arbitrary: clients w) (simp_all add: Let_def)

lemma handle_lines_inbuf:
  "inbuf (fst (handle_lines i ls clients w) ! j) = inbuf (clients ! j)"
  by (induction ls arbitrary: clients w) (simp_all add: Let_def handle_line_inbuf)

lemma process_client_data_after_recv:
  assumes "i < length clients"
  shows "process_client_data i (set_inbuf i buf clients) w =
    (set_inbuf i (snd (frame buf)) (fst (handle_lines i (fst (frame buf)) clients w)),
     snd (handle_lines i (fst (frame buf)) clients w))"
  using assms
  by (simp add: process_client_data_frame set_inbuf_nth handle_lines_set_inbuf)

text \<open>
  The same independence for the server as a whole: receiving \<open>a\<close>, processing, then
  receiving \<open>b\<close> and processing leaves the vector and the network as receiving
  \<open>a @ b\<close> at once and processing does.
\<close>

lemma process_client_data_chunks:
  assumes "i < length clients"
  shows "process_client_data i
      (set_inbuf i
         (inbuf (fst (process_client_data i (set_inbuf i (buf @ a) clients) w) ! i) @ b)
         (fst (process_client_data i (set_inbuf i (buf @ a) clients) w)))
      (snd (process_client_data i (set_inbuf i (buf @ a) clients) w)) =
    process_client_data i (set_inbuf i (buf @ a @ b) clients) w"
proof -
  let ?la = "fst (frame (buf @ a))"
  let ?ra = "snd (frame (buf @ a))"
  let ?h = "handle_lines i ?la clients w"
  have first: "process_client_data i (set_inbuf i (buf @ a) clients) w =
      (set_inbuf i ?ra (fst ?h), snd ?h)"
    using assms by (rule process_client_data_after_recv)
  have len: "i < length (fst ?h)" using assms by simp
  have acc: "inbuf (set_inbuf i ?ra (fst ?h) ! i) = ?ra"
    using len by (simp add: set_inbuf_nth)
  have second: "process_client_data i (set_inbuf i (?ra @ b) (fst ?h)) (snd ?h) =
      (set_inbuf i (snd (frame (?ra @ b)))
         (fst (handle_lines i (fst (frame (?ra @ b))) (fst ?h) (snd ?h))),
       snd (handle_lines i (fst (frame (?ra @ b))) (fst ?h) (snd ?h)))"
    using len by (rule process_client_data_after_recv)
  have whole: "frame (buf @ a @ b) = (?la @ fst (frame (?ra @ b)), snd (frame (?ra @ b)))"
    using frame_append [of "buf @ a" b] by simp
  have third: "process_client_data i (set_inbuf i (buf @ a @ b) clients) w =
      (set_inbuf i (snd (frame (?ra @ b)))
         (fst (handle_lines i (fst (frame (?ra @ b))) (fst ?h) (snd ?h))),
       snd (handle_lines i (fst (frame (?ra @ b))) (fst ?h) (snd ?h)))"
    using assms
    by (simp add: process_client_data_after_recv whole handle_lines_append)
  show ?thesis
    unfolding first third by (simp add: acc second)
qed

section \<open>The invariant of a connection\<close>

lemma handle_line_other:
  "j \<noteq> i \<Longrightarrow> fst (handle_line i raw clients w) ! j = clients ! j"
  by (simp add: handle_line_def Let_def)

lemma handle_line_conn_inv_nth:
  assumes "conn_inv (clients ! j)" "j < length clients"
  shows "conn_inv (fst (handle_line i raw clients w) ! j)"
proof (cases "j = i")
  case False
  with assms show ?thesis by (simp add: handle_line_other)
next
  case True
  with assms show ?thesis
    by (auto simp: handle_line_def Let_def conn_inv_def dest: is_valid_nick_nonempty)
qed

lemma all_nth_iff: "(\<forall>c \<in> set xs. P c) \<longleftrightarrow> (\<forall>j < length xs. P (xs ! j))"
  by (rule all_set_conv_all_nth)

lemma handle_line_conn_inv:
  assumes "\<forall>c \<in> set clients. conn_inv c"
  shows "\<forall>c \<in> set (fst (handle_line i raw clients w)). conn_inv c"
  using assms unfolding all_nth_iff
  by (simp add: handle_line_conn_inv_nth)

lemma handle_line_nick_stable:
  assumes "conn_inv (clients ! j)" "nick (clients ! j) \<noteq> []"
  shows "nick (fst (handle_line i raw clients w) ! j) = nick (clients ! j)"
proof (cases "j = i")
  case False
  then show ?thesis by (simp add: handle_line_other)
next
  case True
  with assms have "registered (clients ! i)" by (simp add: conn_inv_def)
  with True show ?thesis by (simp add: handle_line_def Let_def)
qed

lemma conn_inv_inbuf [simp]: "conn_inv (c\<lparr>inbuf := b\<rparr>) = conn_inv c"
  by (simp add: conn_inv_def)

lemma conn_inv_fd [simp]: "conn_inv (c\<lparr>fd := f\<rparr>) = conn_inv c"
  by (simp add: conn_inv_def)

lemma conn_inv_new_client [simp]: "conn_inv (new_client f)"
  by (simp add: conn_inv_def new_client_def)

lemma all_update:
  "\<forall>c \<in> set xs. P c \<Longrightarrow> P x \<Longrightarrow> \<forall>c \<in> set (xs[i := x]). P c"
  using set_update_subset_insert [of xs i x] by auto

lemma handle_lines_conn_inv:
  "\<forall>c \<in> set clients. conn_inv c \<Longrightarrow> \<forall>c \<in> set (fst (handle_lines i ls clients w)). conn_inv c"
proof (induction ls arbitrary: clients w)
  case Nil
  then show ?case by simp
next
  case (Cons l ls)
  have "\<forall>c \<in> set (fst (handle_line i l clients w)). conn_inv c"
    using Cons.prems by (rule handle_line_conn_inv)
  then show ?case
    using Cons.IH [of "fst (handle_line i l clients w)" "snd (handle_line i l clients w)"]
    by (simp add: Let_def)
qed

lemma handle_lines_nick_stable:
  "j < length clients \<Longrightarrow> conn_inv (clients ! j) \<Longrightarrow> nick (clients ! j) \<noteq> [] \<Longrightarrow>
   nick (fst (handle_lines i ls clients w) ! j) = nick (clients ! j)"
proof (induction ls arbitrary: clients w)
  case Nil
  then show ?case by simp
next
  case (Cons l ls)
  let ?r = "handle_line i l clients w"
  have "nick (fst ?r ! j) = nick (clients ! j)"
    using Cons.prems by (simp add: handle_line_nick_stable)
  moreover have "conn_inv (fst ?r ! j)"
    using Cons.prems by (simp add: handle_line_conn_inv_nth)
  ultimately show ?case
    using Cons.IH [of "fst ?r" "snd ?r"] Cons.prems by (simp add: Let_def)
qed

lemma set_inbuf_conn_inv:
  "\<forall>c \<in> set clients. conn_inv c \<Longrightarrow> \<forall>c \<in> set (set_inbuf i b clients). conn_inv c"
  unfolding all_nth_iff
  by (cases "i < length clients") (auto simp: set_inbuf_def nth_list_update)

lemma set_inbuf_nick: "nick (set_inbuf i b clients ! j) = nick (clients ! j)"
  by (cases "i < length clients"; cases "j = i")
    (simp_all add: set_inbuf_def list_update_beyond)

lemma process_client_data_conn_inv:
  assumes "\<forall>c \<in> set clients. conn_inv c"
  shows "\<forall>c \<in> set (fst (process_client_data i clients w)). conn_inv c"
proof (cases "i < length clients")
  case True
  have "\<forall>c \<in> set (set_inbuf i (snd (frame (inbuf (clients ! i))))
      (fst (handle_lines i (fst (frame (inbuf (clients ! i)))) clients w))). conn_inv c"
    using assms by (intro set_inbuf_conn_inv handle_lines_conn_inv)
  with True show ?thesis
    by (simp add: process_client_data_frame)
next
  case False
  with assms show ?thesis by (simp add: process_client_data.simps)
qed

lemma process_client_data_nick_stable:
  assumes "j < length clients" "conn_inv (clients ! j)" "nick (clients ! j) \<noteq> []"
  shows "nick (fst (process_client_data i clients w) ! j) = nick (clients ! j)"
proof (cases "i < length clients")
  case True
  with assms show ?thesis
    by (simp add: process_client_data_frame set_inbuf_nick handle_lines_nick_stable)
next
  case False
  then show ?thesis by (simp add: process_client_data.simps)
qed

lemma mark_for_removal_conn_inv:
  assumes "\<forall>c \<in> set clients. conn_inv c"
  shows "\<forall>c \<in> set (fst (mark_for_removal i clients w rm)). conn_inv c"
  using assms unfolding all_nth_iff
  by (cases "i < length clients") (auto simp: mark_for_removal_def nth_list_update)

lemma recv_into_conn_inv [simp]: "conn_inv (snd (recv_into c r)) = conn_inv c"
  by (simp add: recv_into_def Let_def)

lemma pass_body_cases:
  assumes "P (clients, w, rm)"
    and "\<And>r. map_of rd (fd (clients ! i)) = Some r \<Longrightarrow> \<not> fd (clients ! i) < 0 \<Longrightarrow>
      fst (recv_into (clients ! i) r) \<le> 0 \<Longrightarrow>
      P (mark_for_removal i (clients[i := snd (recv_into (clients ! i) r)]) w rm)"
    and "\<And>r. map_of rd (fd (clients ! i)) = Some r \<Longrightarrow> \<not> fd (clients ! i) < 0 \<Longrightarrow>
      fst (recv_into (clients ! i) r) > 0 \<Longrightarrow>
      P (fst (process_client_data i (clients[i := snd (recv_into (clients ! i) r)]) w),
         snd (process_client_data i (clients[i := snd (recv_into (clients ! i) r)]) w), rm)"
  shows "P (pass_body rd i clients w rm)"
proof (cases "fd (clients ! i) < 0")
  case True
  with assms(1) show ?thesis by (simp add: pass_body_def)
next
  case nonneg: False
  show ?thesis
  proof (cases "map_of rd (fd (clients ! i))")
    case None
    with nonneg assms(1) show ?thesis by (simp add: pass_body_def)
  next
    case (Some r)
    show ?thesis
    proof (cases "fst (recv_into (clients ! i) r) \<le> 0")
      case True
      with assms(2) [OF Some nonneg] nonneg Some show ?thesis
        by (auto simp: pass_body_def Let_def)
    next
      case False
      with assms(3) [OF Some nonneg] nonneg Some show ?thesis
        by (auto simp: pass_body_def Let_def)
    qed
  qed
qed

lemma pass_body_conn_inv:
  assumes "\<forall>c \<in> set clients. conn_inv c"
  shows "\<forall>c \<in> set (fst (pass_body rd i clients w rm)). conn_inv c"
proof (rule pass_body_cases)
  show "\<forall>c \<in> set (fst (clients, w, rm)). conn_inv c"
    using assms by simp
next
  fix r
  let ?clients1 = "clients[i := snd (recv_into (clients ! i) r)]"
  have inv1: "\<forall>c \<in> set ?clients1. conn_inv c"
  proof (cases "i < length clients")
    case True
    with assms show ?thesis by (intro all_update) simp_all
  next
    case False
    with assms show ?thesis by (simp add: list_update_beyond)
  qed
  show "\<forall>c \<in> set (fst (mark_for_removal i ?clients1 w rm)). conn_inv c"
    using inv1 by (rule mark_for_removal_conn_inv)
  show "\<forall>c \<in> set (fst (fst (process_client_data i ?clients1 w),
      snd (process_client_data i ?clients1 w), rm)). conn_inv c"
    using process_client_data_conn_inv [OF inv1] by simp
qed

lemma read_pass_conn_inv:
  "\<forall>c \<in> set clients. conn_inv c \<Longrightarrow> \<forall>c \<in> set (fst (read_pass rd i clients w rm)). conn_inv c"
proof (induction rd i clients w rm rule: read_pass.induct)
  case (1 rd i clients w to_remove)
  show ?case
  proof (cases "i < length clients")
    case False
    with "1.prems" show ?thesis by (subst read_pass.simps) simp
  next
    case True
    have "\<forall>c \<in> set (fst (pass_body rd i clients w to_remove)). conn_inv c"
      using "1.prems" by (rule pass_body_conn_inv)
    from "1.IH" [OF True refl this] True show ?thesis
      by (subst read_pass.simps) (simp add: Let_def)
  qed
qed

lemma erase_marked_subset: "set (fst (erase_marked ds clients w)) \<subseteq> set clients"
proof (induction ds arbitrary: clients w)
  case Nil
  then show ?case by simp
next
  case (Cons idx rest)
  have "set (take (nat idx) clients @ drop (Suc (nat idx)) clients) \<subseteq> set clients"
    using set_take_subset [of "nat idx" clients] set_drop_subset [of "Suc (nat idx)" clients]
    by auto
  with Cons.IH show ?case
    by (auto simp del: set_append)
qed

lemma cleanup_subset: "set (fst (cleanup rm clients w)) \<subseteq> set clients"
  using erase_marked_subset by (simp add: cleanup_def)

lemma accept_step_conn_inv:
  "\<forall>c \<in> set clients. conn_inv c \<Longrightarrow> \<forall>c \<in> set (fst (accept_step a clients w)). conn_inv c"
  by (auto simp: accept_step_def split: option.splits)

lemma loop_iteration_conn_inv:
  assumes "\<forall>c \<in> set clients. conn_inv c"
  shows "\<forall>c \<in> set (fst (loop_iteration a rd clients w)). conn_inv c"
proof -
  let ?a = "accept_step a clients w"
  let ?p = "read_pass rd 0 (fst ?a) (snd ?a) []"
  have "\<forall>c \<in> set (fst ?p). conn_inv c"
    using assms by (intro read_pass_conn_inv accept_step_conn_inv)
  then show ?thesis
    using cleanup_subset [of "snd (snd ?p)" "fst ?p" "fst (snd ?p)"]
    by (auto simp: loop_iteration_def Let_def)
qed

lemma reachable_conn_inv: "reachable clients w \<Longrightarrow> \<forall>c \<in> set clients. conn_inv c"
proof (induction rule: reachable.induct)
  case (start w)
  show ?case by simp
next
  case (turn clients w accepted rd clients' w')
  from loop_iteration_conn_inv [OF turn.IH, of accepted rd w] turn.hyps(2)
  show ?case by simp
qed

text \<open>
  C9. A connection is registered exactly when its nickname is non-empty: this holds of a
  connection as created on accept and of every connection of every state the server
  reaches, and it is kept by the accept step, by the processing of any line and of any
  accumulator, by marking for removal and by a whole turn of the loop. Under it, a
  nickname that is set is not changed by any line processed later.
\<close>

theorem registered_iff_nickname_set:
  "conn_inv (new_client f) \<and>
   (reachable clients w \<longrightarrow> (\<forall>c \<in> set clients. conn_inv c)) \<and>
   ((\<forall>c \<in> set clients. conn_inv c) \<longrightarrow>
      (\<forall>c \<in> set (fst (accept_step accepted clients w)). conn_inv c) \<and>
      (\<forall>c \<in> set (fst (handle_line i raw clients w)). conn_inv c) \<and>
      (\<forall>c \<in> set (fst (process_client_data i clients w)). conn_inv c) \<and>
      (\<forall>c \<in> set (fst (mark_for_removal i clients w rm)). conn_inv c) \<and>
      (\<forall>c \<in> set (fst (loop_iteration accepted rd clients w)). conn_inv c) \<and>
      (\<forall>j < length clients. nick (clients ! j) \<noteq> [] \<longrightarrow>
         nick (fst (handle_line i raw clients w) ! j) = nick (clients ! j) \<and>
         nick (fst (process_client_data i clients w) ! j) = nick (clients ! j)))"
proof (intro conjI impI)
  show "conn_inv (new_client f)" by simp
next
  assume "reachable clients w"
  then show "\<forall>c \<in> set clients. conn_inv c" by (rule reachable_conn_inv)
next
  assume inv: "\<forall>c \<in> set clients. conn_inv c"
  show "\<forall>c \<in> set (fst (accept_step accepted clients w)). conn_inv c"
    using inv by (rule accept_step_conn_inv)
  show "\<forall>c \<in> set (fst (handle_line i raw clients w)). conn_inv c"
    using inv by (rule handle_line_conn_inv)
  show "\<forall>c \<in> set (fst (process_client_data i clients w)). conn_inv c"
    using inv by (rule process_client_data_conn_inv)
  show "\<forall>c \<in> set (fst (mark_for_removal i clients w rm)). conn_inv c"
    using inv by (rule mark_for_removal_conn_inv)
  show "\<forall>c \<in> set (fst (loop_iteration accepted rd clients w)). conn_inv c"
    using inv by (rule loop_iteration_conn_inv)
  show "\<forall>j < length clients. nick (clients ! j) \<noteq> [] \<longrightarrow>
      nick (fst (handle_line i raw clients w) ! j) = nick (clients ! j) \<and>
      nick (fst (process_client_data i clients w) ! j) = nick (clients ! j)"
    using inv
    by (simp add: all_nth_iff handle_line_nick_stable process_client_data_nick_stable)
qed

theorem registered_iff_nickname_set_witness:
  "conn_inv (new_client 7) \<and>
   list_all conn_inv (fst (handle_line 1 ''NICK carol'' [alice, new_client 5] quiet_net)) \<and>
   list_all conn_inv
     (fst (loop_iteration (Some 7) [(5, Received (''NICK carol'' @ [nl]))]
        [alice, new_client 5] quiet_net)) \<and>
   nick (fst (handle_line 0 ''NICK mallory'' [alice, new_client 5] quiet_net) ! 0) = ''alice''"
proof -
  have inv: "\<forall>c \<in> set [alice, new_client 5]. conn_inv c"
    by (simp add: alice_def new_client_def conn_inv_def)
  have set: "nick ([alice, new_client 5] ! 0) \<noteq> []" "0 < length [alice, new_client 5]"
    by (simp_all add: alice_def)
  note t1 = registered_iff_nickname_set [of 7 "[alice, new_client 5]" quiet_net "Some 7"
      1 "''NICK carol''" "[]" "[(5, Received (''NICK carol'' @ [nl]))]"]
  note t0 = registered_iff_nickname_set [of 7 "[alice, new_client 5]" quiet_net "Some 7"
      0 "''NICK mallory''" "[]" "[(5, Received (''NICK carol'' @ [nl]))]"]
  from t1 have "conn_inv (new_client 7)" by blast
  moreover from t1 inv
  have "\<forall>c \<in> set (fst (handle_line 1 ''NICK carol'' [alice, new_client 5] quiet_net)). conn_inv c"
    by blast
  moreover from t1 inv
  have "\<forall>c \<in> set (fst (loop_iteration (Some 7) [(5, Received (''NICK carol'' @ [nl]))]
      [alice, new_client 5] quiet_net)). conn_inv c"
    by blast
  moreover from t0 inv set
  have "nick (fst (handle_line 0 ''NICK mallory'' [alice, new_client 5] quiet_net) ! 0) =
      nick ([alice, new_client 5] ! 0)"
    by blast
  ultimately show ?thesis
    by (simp add: list_all_iff alice_def)
qed

section \<open>The readiness pass, entry by entry\<close>

lemma handle_line_map_fd: "map fd (fst (handle_line i raw clients w)) = map fd clients"
  by (cases "i < length clients")
    (simp_all add: handle_line_def Let_def map_update list_update_beyond list_update_same_conv)

lemma handle_lines_map_fd: "map fd (fst (handle_lines i ls clients w)) = map fd clients"
  by (induction ls arbitrary: clients w) (simp_all add: Let_def handle_line_map_fd)

lemma handle_lines_other:
  "j \<noteq> i \<Longrightarrow> fst (handle_lines i ls clients w) ! j = clients ! j"
  by (induction ls arbitrary: clients w) (simp_all add: Let_def handle_line_other)

lemma handle_line_emits: "\<exists>es. snd (handle_line i raw clients w) = emit es w"
  by (auto simp: handle_line_def Let_def send_response_emit broadcast_emit)

lemma emit_self: "\<exists>es. w = emit es w"
  by (rule exI [of _ "[]"]) simp

lemma handle_lines_emits: "\<exists>es. snd (handle_lines i ls clients w) = emit es w"
proof (induction ls arbitrary: clients w)
  case Nil
  show ?case by (simp add: emit_self)
next
  case (Cons l ls)
  obtain es where es: "snd (handle_line i l clients w) = emit es w"
    using handle_line_emits by blast
  obtain es' where "snd (handle_lines i ls (fst (handle_line i l clients w)) (emit es w)) =
      emit es' (emit es w)"
    using Cons.IH by blast
  with es show ?case by (auto simp: Let_def)
qed

lemma process_client_data_emits: "\<exists>es. snd (process_client_data i clients w) = emit es w"
proof (cases "i < length clients")
  case True
  then show ?thesis by (simp add: process_client_data_frame handle_lines_emits)
next
  case False
  then show ?thesis by (simp add: process_client_data.simps emit_self)
qed

lemma process_client_data_other:
  "j \<noteq> i \<Longrightarrow> fst (process_client_data i clients w) ! j = clients ! j"
proof (cases "i < length clients")
  case True
  assume "j \<noteq> i"
  with True show ?thesis
    by (simp add: process_client_data_frame set_inbuf_def handle_lines_other)
next
  case False
  then show ?thesis by (simp add: process_client_data.simps)
qed

lemma process_client_data_map_fd:
  "map fd (fst (process_client_data i clients w)) = map fd clients"
proof (cases "i < length clients")
  case True
  then show ?thesis
    by (simp add: process_client_data_frame handle_lines_map_fd)
next
  case False
  then show ?thesis by (simp add: process_client_data.simps)
qed

lemma process_client_data_fd:
  "j < length clients \<Longrightarrow> fd (fst (process_client_data i clients w) ! j) = fd (clients ! j)"
  using process_client_data_map_fd [of i clients w]
  by (metis length_map nth_map)

lemma recv_into_failed:
  "recv_count r \<le> 0 \<Longrightarrow> recv_into c r = (recv_count r, c)"
  by (simp add: recv_into_def Let_def)

lemma recv_into_fst [simp]: "fst (recv_into c r) = recv_count r"
  by (simp add: recv_into_def Let_def)

lemma recv_into_fd [simp]: "fd (snd (recv_into c r)) = fd c"
  by (simp add: recv_into_def Let_def)

lemma pass_body_failed:
  assumes "i < length clients" "read_failed rd (clients ! i)"
  shows "pass_body rd i clients w rm =
    (clients[i := (clients ! i)\<lparr>fd := - 1\<rparr>], emit [Close (fd (clients ! i))] w, rm @ [int i])"
  using assms
  by (auto simp: pass_body_def read_failed_def Let_def recv_into_failed mark_for_removal_def
      split: option.splits)

lemma pass_body_not_failed:
  assumes "i < length clients" "\<not> read_failed rd (clients ! i)"
  shows "snd (snd (pass_body rd i clients w rm)) = rm \<and>
    fd (fst (pass_body rd i clients w rm) ! i) = fd (clients ! i)"
  using assms
  by (auto simp: pass_body_def read_failed_def Let_def process_client_data_fd
      split: option.splits)

lemma pass_body_other:
  "j \<noteq> i \<Longrightarrow> fst (pass_body rd i clients w rm) ! j = clients ! j"
  by (rule pass_body_cases) (simp_all add: mark_for_removal_def process_client_data_other)

lemma pass_body_emits: "\<exists>es. fst (snd (pass_body rd i clients w rm)) = emit es w"
  by (rule pass_body_cases)
    (auto simp: mark_for_removal_def process_client_data_emits emit_self)

lemma pass_body_unready:
  "fd (clients ! i) < 0 \<or> map_of rd (fd (clients ! i)) = None \<Longrightarrow>
   pass_body rd i clients w rm = (clients, w, rm)"
  by (auto simp: pass_body_def Let_def)

lemma read_pass_done:
  "\<not> i < length clients \<Longrightarrow> read_pass rd i clients w rm = (clients, w, rm)"
  by (subst read_pass.simps) simp

lemma read_pass_step:
  "i < length clients \<Longrightarrow>
   read_pass rd i clients w rm =
     read_pass rd (Suc i) (fst (pass_body rd i clients w rm))
       (fst (snd (pass_body rd i clients w rm))) (snd (snd (pass_body rd i clients w rm)))"
  by (subst read_pass.simps) (simp add: Let_def)

lemma read_pass_length: "length (fst (read_pass rd i clients w rm)) = length clients"
proof (induction rd i clients w rm rule: read_pass.induct)
  case (1 rd i clients w rm)
  show ?case
  proof (cases "i < length clients")
    case True
    with "1.IH" [OF True refl] show ?thesis
      by (simp add: read_pass_step pass_body_length)
  next
    case False
    then show ?thesis by (simp add: read_pass_done)
  qed
qed

lemma read_pass_before:
  "j < i \<Longrightarrow> fst (read_pass rd i clients w rm) ! j = clients ! j"
proof (induction rd i clients w rm rule: read_pass.induct)
  case (1 rd i clients w rm)
  show ?case
  proof (cases "i < length clients")
    case True
    with "1.IH" [OF True refl] "1.prems" show ?thesis
      by (simp add: read_pass_step pass_body_other)
  next
    case False
    then show ?thesis by (simp add: read_pass_done)
  qed
qed

lemma read_pass_marks:
  "snd (snd (read_pass rd i clients w rm)) =
     rm @ map int (filter (\<lambda>j. read_failed rd (clients ! j)) [i..<length clients])"
proof (induction rd i clients w rm rule: read_pass.induct)
  case (1 rd i clients w rm)
  show ?case
  proof (cases "i < length clients")
    case True
    let ?b = "pass_body rd i clients w rm"
    have same: "filter (\<lambda>j. read_failed rd (fst ?b ! j)) [Suc i..<length clients] =
        filter (\<lambda>j. read_failed rd (clients ! j)) [Suc i..<length clients]"
      by (rule filter_cong) (simp_all add: pass_body_other)
    have rm1: "snd (snd ?b) = (if read_failed rd (clients ! i) then rm @ [int i] else rm)"
      using True by (simp add: pass_body_failed pass_body_not_failed)
    from "1.IH" [OF True refl] True show ?thesis
      by (simp add: read_pass_step pass_body_length same rm1 upt_conv_Cons)
  next
    case False
    then show ?thesis by (simp add: read_pass_done)
  qed
qed

lemma read_pass_failed:
  "i \<le> j \<Longrightarrow> j < length clients \<Longrightarrow> read_failed rd (clients ! j) \<Longrightarrow>
   fst (read_pass rd i clients w rm) ! j = (clients ! j)\<lparr>fd := - 1\<rparr>"
proof (induction rd i clients w rm rule: read_pass.induct)
  case (1 rd i clients w rm)
  from "1.prems" have lt: "i < length clients" by simp
  show ?case
  proof (cases "j = i")
    case True
    with lt "1.prems" show ?thesis
      by (simp add: read_pass_step read_pass_before pass_body_failed)
  next
    case False
    with "1.prems" "1.IH" [OF lt refl] lt show ?thesis
      by (simp add: read_pass_step pass_body_other pass_body_length)
  qed
qed

lemma read_pass_fd:
  "i \<le> j \<Longrightarrow> j < length clients \<Longrightarrow> \<not> read_failed rd (clients ! j) \<Longrightarrow>
   fd (fst (read_pass rd i clients w rm) ! j) = fd (clients ! j)"
proof (induction rd i clients w rm rule: read_pass.induct)
  case (1 rd i clients w rm)
  from "1.prems" have lt: "i < length clients" by simp
  show ?case
  proof (cases "j = i")
    case True
    with lt "1.prems" show ?thesis
      by (simp add: read_pass_step read_pass_before pass_body_not_failed)
  next
    case False
    with "1.prems" "1.IH" [OF lt refl] lt show ?thesis
      by (simp add: read_pass_step pass_body_other pass_body_length)
  qed
qed

lemma read_pass_unready:
  "j < length clients \<Longrightarrow> fd (clients ! j) < 0 \<or> map_of rd (fd (clients ! j)) = None \<Longrightarrow>
   fst (read_pass rd i clients w rm) ! j = clients ! j"
proof (induction rd i clients w rm rule: read_pass.induct)
  case (1 rd i clients w rm)
  show ?case
  proof (cases "i < length clients")
    case lt: True
    show ?thesis
    proof (cases "j = i")
      case True
      with lt "1.prems" show ?thesis
        by (simp add: read_pass_step read_pass_before pass_body_unready)
    next
      case False
      with "1.prems" "1.IH" [OF lt refl] lt show ?thesis
        by (simp add: read_pass_step pass_body_other pass_body_length)
    qed
  next
    case False
    then show ?thesis by (simp add: read_pass_done)
  qed
qed

lemma read_pass_closes:
  "\<exists>es. fst (snd (read_pass rd i clients w rm)) = emit es w \<and>
     (\<forall>j. i \<le> j \<and> j < length clients \<and> read_failed rd (clients ! j)
        \<longrightarrow> Close (fd (clients ! j)) \<in> set es)"
proof (induction rd i clients w rm rule: read_pass.induct)
  case (1 rd i clients w rm)
  show ?case
  proof (cases "i < length clients")
    case lt: True
    let ?b = "pass_body rd i clients w rm"
    obtain es0 where es0: "fst (snd ?b) = emit es0 w"
      using pass_body_emits by blast
    have here: "read_failed rd (clients ! i) \<Longrightarrow> Close (fd (clients ! i)) \<in> set es0"
    proof -
      assume "read_failed rd (clients ! i)"
      with lt have "fst (snd ?b) = emit [Close (fd (clients ! i))] w"
        by (simp add: pass_body_failed)
      with es0 have "trace (emit es0 w) = trace (emit [Close (fd (clients ! i))] w)"
        by simp
      then show ?thesis by simp
    qed
    from "1.IH" [OF lt refl] obtain es1 where
      es1: "fst (snd (read_pass rd (Suc i) (fst ?b) (fst (snd ?b)) (snd (snd ?b)))) =
          emit es1 (fst (snd ?b))"
      and later: "\<forall>j. Suc i \<le> j \<and> j < length (fst ?b) \<and> read_failed rd (fst ?b ! j)
          \<longrightarrow> Close (fd (fst ?b ! j)) \<in> set es1"
      by auto
    have "fst (snd (read_pass rd i clients w rm)) = emit (es0 @ es1) w"
      using lt es0 es1 by (simp add: read_pass_step)
    moreover have "Close (fd (clients ! j)) \<in> set (es0 @ es1)"
      if "i \<le> j" "j < length clients" "read_failed rd (clients ! j)" for j
    proof (cases "j = i")
      case True
      with that here show ?thesis by simp
    next
      case False
      with that later show ?thesis
        by (simp add: pass_body_other pass_body_length)
    qed
    ultimately show ?thesis by blast
  next
    case False
    then have "fst (snd (read_pass rd i clients w rm)) = emit [] w"
      by (simp add: read_pass_done)
    with False show ?thesis by (intro exI [of _ "[]"]) simp
  qed
qed

section \<open>Erasing the marked entries\<close>

lemma erase_one_kept:
  assumes "k < length cs" "\<forall>j \<in> set js. j < k"
  shows "map ((!) (take k cs @ drop (Suc k) cs))
      (filter (\<lambda>j. j \<notin> set js) [0..<length cs - 1]) =
    map ((!) cs) (filter (\<lambda>j. j \<notin> set (js @ [k])) [0..<length cs])"
proof -
  let ?cs1 = "take k cs @ drop (Suc k) cs"
  let ?n = "length cs"
  have split1: "[0..<?n - 1] = [0..<k] @ [k..<?n - 1]"
    using assms(1) upt_add_eq_append [of 0 k "?n - 1 - k"] by simp
  have split2: "[0..<?n] = [0..<k] @ k # [Suc k..<?n]"
    using assms(1) upt_add_eq_append [of 0 k "?n - k"] by (simp add: upt_conv_Cons)
  have tail1: "filter (\<lambda>j. j \<notin> set js) [k..<?n - 1] = [k..<?n - 1]"
    using assms(2) by (auto simp: filter_id_conv)
  have tail2: "filter (\<lambda>j. j \<notin> set (js @ [k])) [Suc k..<?n] = [Suc k..<?n]"
    using assms(2) by (auto simp: filter_id_conv)
  have head: "filter (\<lambda>j. j \<notin> set (js @ [k])) [0..<k] = filter (\<lambda>j. j \<notin> set js) [0..<k]"
    by (rule filter_cong) auto
  have low: "map ((!) ?cs1) (filter (\<lambda>j. j \<notin> set js) [0..<k]) =
      map ((!) cs) (filter (\<lambda>j. j \<notin> set js) [0..<k])"
    using assms(1) by (intro map_cong) (auto simp: nth_append)
  have high1: "map ((!) ?cs1) [k..<?n - 1] = drop (Suc k) cs"
    using assms(1) by (intro map_upt_eqI) (auto simp: nth_append)
  have high2: "map ((!) cs) [Suc k..<?n] = drop (Suc k) cs"
    using assms(1) by (intro map_upt_eqI) auto
  have mid: "filter (\<lambda>j. j \<notin> set (js @ [k])) (k # [Suc k..<?n]) = [Suc k..<?n]"
    using tail2 by simp
  have lhs: "map ((!) ?cs1) (filter (\<lambda>j. j \<notin> set js) [0..<?n - 1]) =
      map ((!) cs) (filter (\<lambda>j. j \<notin> set js) [0..<k]) @ drop (Suc k) cs"
    unfolding split1 by (simp only: filter_append map_append tail1 low high1)
  have rhs: "map ((!) cs) (filter (\<lambda>j. j \<notin> set (js @ [k])) [0..<?n]) =
      map ((!) cs) (filter (\<lambda>j. j \<notin> set js) [0..<k]) @ drop (Suc k) cs"
    unfolding split2 by (simp only: filter_append map_append mid head high2)
  show ?thesis
    by (simp only: lhs rhs)
qed

lemma erase_marked_descending:
  assumes "sorted_wrt (<) js" "\<forall>j \<in> set js. j < length cs \<and> fd (cs ! j) < 0"
  shows "erase_marked (rev (map int js)) cs w =
    (map ((!) cs) (filter (\<lambda>j. j \<notin> set js) [0..<length cs]), w)"
  using assms
proof (induction js arbitrary: cs rule: rev_induct)
  case Nil
  then show ?case by (simp add: map_nth)
next
  case (snoc k js)
  let ?cs1 = "take k cs @ drop (Suc k) cs"
  from snoc.prems have k: "k < length cs" "fd (cs ! k) < 0"
    and below: "\<forall>j \<in> set js. j < k" and sorted: "sorted_wrt (<) js"
    by (auto simp: sorted_wrt_append)
  have len1: "length ?cs1 = length cs - 1" using k by simp
  have "\<forall>j \<in> set js. j < length ?cs1 \<and> fd (?cs1 ! j) < 0"
    using snoc.prems below k by (auto simp: nth_append)
  from snoc.IH [OF sorted this]
  have "erase_marked (rev (map int js)) ?cs1 w =
      (map ((!) ?cs1) (filter (\<lambda>j. j \<notin> set js) [0..<length cs - 1]), w)"
    by (simp only: len1)
  also have "map ((!) ?cs1) (filter (\<lambda>j. j \<notin> set js) [0..<length cs - 1]) =
      map ((!) cs) (filter (\<lambda>j. j \<notin> set (js @ [k])) [0..<length cs])"
    using k(1) below by (rule erase_one_kept)
  finally show ?case
    using k by simp
qed

lemma cleanup_marked:
  assumes "\<forall>j < length cs. F j \<longrightarrow> fd (cs ! j) < 0"
  shows "cleanup (map int (filter F [0..<length cs])) cs w =
    (map ((!) cs) (filter (\<lambda>j. \<not> F j) [0..<length cs]), w)"
proof (cases "filter F [0..<length cs] = []")
  case True
  then have "filter (\<lambda>j. \<not> F j) [0..<length cs] = [0..<length cs]"
    by (auto simp: filter_empty_conv filter_id_conv)
  with True show ?thesis by (simp add: cleanup_def map_nth)
next
  case False
  let ?js = "filter F [0..<length cs]"
  have sw: "sorted_wrt (<) ?js" by (rule sorted_wrt_filter) simp
  then have "sorted (map int ?js)"
    by (simp add: sorted_wrt_map strict_sorted_iff sorted_map)
  then have srt: "sort (map int ?js) = map int ?js" by (rule sorted_sort_id)
  have "\<forall>j \<in> set ?js. j < length cs \<and> fd (cs ! j) < 0"
    using assms by simp
  from erase_marked_descending [OF sw this, of w]
  have "erase_marked (rev (map int ?js)) cs w =
      (map ((!) cs) (filter (\<lambda>j. j \<notin> set ?js) [0..<length cs]), w)" .
  moreover have "filter (\<lambda>j. j \<notin> set ?js) [0..<length cs] = filter (\<lambda>j. \<not> F j) [0..<length cs]"
    by (rule filter_cong) auto
  ultimately show ?thesis
    using False by (simp add: cleanup_def srt)
qed

section \<open>Deferred removal\<close>

lemma loop_iteration_whole_pass:
  "loop_iteration accepted rd clients w =
     cleanup (snd (snd (whole_pass rd (fst (accept_step accepted clients w))
                (snd (accept_step accepted clients w)))))
       (fst (whole_pass rd (fst (accept_step accepted clients w))
          (snd (accept_step accepted clients w))))
       (fst (snd (whole_pass rd (fst (accept_step accepted clients w))
          (snd (accept_step accepted clients w)))))"
  by (simp add: loop_iteration_def whole_pass_def Let_def)

text \<open>
  C8. In one readiness pass, a connection whose read returns zero or an error is closed,
  gets the descriptor -1 and is marked, and stays in the vector at its index: the pass
  leaves the length of the vector as it was, and the marked indices are those of exactly
  these connections. A connection that was not readable is as it was, and one whose read
  did not fail keeps its descriptor. The cleanup after the pass then removes exactly the
  marked entries: what remains is the unmarked entries, in order, each as the pass left
  it, and the cleanup makes no further system call.
\<close>

theorem deferred_removal:
  "length (fst (whole_pass rd clients w)) = length clients \<and>
   snd (snd (whole_pass rd clients w)) =
     map int (filter (\<lambda>j. read_failed rd (clients ! j)) [0..<length clients]) \<and>
   (\<forall>j < length clients. read_failed rd (clients ! j) \<longrightarrow>
      fst (whole_pass rd clients w) ! j = (clients ! j)\<lparr>fd := - 1\<rparr> \<and>
      Close (fd (clients ! j)) \<in> set (new_events w (fst (snd (whole_pass rd clients w))))) \<and>
   (\<forall>j < length clients. \<not> read_failed rd (clients ! j) \<longrightarrow>
      fd (fst (whole_pass rd clients w) ! j) = fd (clients ! j)) \<and>
   (\<forall>j < length clients. fd (clients ! j) < 0 \<or> map_of rd (fd (clients ! j)) = None \<longrightarrow>
      fst (whole_pass rd clients w) ! j = clients ! j) \<and>
   cleanup (snd (snd (whole_pass rd clients w))) (fst (whole_pass rd clients w))
       (fst (snd (whole_pass rd clients w))) =
     (map ((!) (fst (whole_pass rd clients w)))
        (filter (\<lambda>j. \<not> read_failed rd (clients ! j)) [0..<length clients]),
      fst (snd (whole_pass rd clients w)))"
proof -
  let ?R = "read_pass rd 0 clients w []"
  have len: "length (fst ?R) = length clients" by (rule read_pass_length)
  have marks: "snd (snd ?R) =
      map int (filter (\<lambda>j. read_failed rd (clients ! j)) [0..<length clients])"
    using read_pass_marks [of rd 0 clients w "[]"] by simp
  have failed: "fst ?R ! j = (clients ! j)\<lparr>fd := - 1\<rparr>"
    if "j < length clients" "read_failed rd (clients ! j)" for j
    using that by (simp add: read_pass_failed)
  obtain es where es: "fst (snd ?R) = emit es w"
    and closes: "\<forall>j. j < length clients \<and> read_failed rd (clients ! j)
      \<longrightarrow> Close (fd (clients ! j)) \<in> set es"
    using read_pass_closes [of rd 0 clients w "[]"] by auto
  have closed: "Close (fd (clients ! j)) \<in> set (new_events w (fst (snd ?R)))"
    if "j < length clients" "read_failed rd (clients ! j)" for j
    using that closes by (simp add: es)
  have kept: "fd (fst ?R ! j) = fd (clients ! j)"
    if "j < length clients" "\<not> read_failed rd (clients ! j)" for j
    using that by (simp add: read_pass_fd)
  have unready: "fst ?R ! j = clients ! j"
    if "j < length clients" "fd (clients ! j) < 0 \<or> map_of rd (fd (clients ! j)) = None" for j
    using that by (rule read_pass_unready)
  have "\<forall>j < length (fst ?R). read_failed rd (clients ! j) \<longrightarrow> fd (fst ?R ! j) < 0"
    using failed len by simp
  from cleanup_marked [of "fst ?R" "\<lambda>j. read_failed rd (clients ! j)" "fst (snd ?R)", OF this]
  have clean: "cleanup (snd (snd ?R)) (fst ?R) (fst (snd ?R)) =
      (map ((!) (fst ?R)) (filter (\<lambda>j. \<not> read_failed rd (clients ! j)) [0..<length clients]),
       fst (snd ?R))"
    by (simp add: len marks)
  show ?thesis
    unfolding whole_pass_def
    using len marks failed closed kept unready clean by blast
qed

theorem deferred_removal_witness:
  "length (fst (whole_pass sample_reads [alice, new_client 5, bob] quiet_net)) = 3 \<and>
   snd (snd (whole_pass sample_reads [alice, new_client 5, bob] quiet_net)) = [1, 2] \<and>
   fst (whole_pass sample_reads [alice, new_client 5, bob] quiet_net) ! 1 =
     (new_client 5)\<lparr>fd := - 1\<rparr> \<and>
   fst (cleanup (snd (snd (whole_pass sample_reads [alice, new_client 5, bob] quiet_net)))
       (fst (whole_pass sample_reads [alice, new_client 5, bob] quiet_net))
       (fst (snd (whole_pass sample_reads [alice, new_client 5, bob] quiet_net)))) =
     [fst (whole_pass sample_reads [alice, new_client 5, bob] quiet_net) ! 0]"
proof -
  let ?cs = "[alice, new_client 5, bob]"
  have f0: "\<not> read_failed sample_reads (?cs ! 0)"
    and f1: "read_failed sample_reads (?cs ! 1)"
    and f2: "read_failed sample_reads (?cs ! 2)"
    by (simp_all add: read_failed_def sample_reads_def alice_def bob_def new_client_def)
  have idx: "[0..<length ?cs] = [0, 1, 2]" by (simp add: upt_rec)
  have marked: "filter (\<lambda>j. read_failed sample_reads (?cs ! j)) [0, 1, 2] = [1, 2]"
    using f0 f1 f2 by simp
  have unmarked: "filter (\<lambda>j. \<not> read_failed sample_reads (?cs ! j)) [0, 1, 2] = [0]"
    using f0 f1 f2 by simp
  note t = deferred_removal [of sample_reads ?cs quiet_net, unfolded idx marked unmarked]
  note t1 = t [THEN conjunct1]
  note t2 = t [THEN conjunct2, THEN conjunct1]
  note t3 = t [THEN conjunct2, THEN conjunct2, THEN conjunct1]
  note t6 = t [THEN conjunct2, THEN conjunct2, THEN conjunct2, THEN conjunct2, THEN conjunct2]
  from t3 f1 have "fst (whole_pass sample_reads ?cs quiet_net) ! 1 = (?cs ! 1)\<lparr>fd := - 1\<rparr>"
    by simp
  with t1 t2 t6 show ?thesis by simp
qed

lemma sample_pass_value:
  "whole_pass sample_reads [alice, new_client 5, bob] quiet_net =
     ([alice, (new_client 5)\<lparr>fd := - 1\<rparr>, bob\<lparr>fd := - 1\<rparr>],
      \<lparr>broken = [],
         trace = [SendOk 5 (''MSG alice hi'' @ [nl]), SendOk 6 (''MSG alice hi'' @ [nl]),
                  Close 5, Close 6]\<rparr>,
      [1, 2])"
  by code_simp

section \<open>Write failures during a broadcast\<close>

lemma broadcast_events_close:
  "Close f \<in> set (broadcast_events bk sfd m clients) \<Longrightarrow> f \<in> set bk \<and> f \<noteq> sfd"
  by (induction clients) (auto simp: send_events_def split: if_splits)

text \<open>
  What holds of a broadcast when writes fail: it never changes the vector, so the sender
  is as it was; it closes only descriptors on which its own write failed, never the
  sender's; and every other open descriptor on which the write does not fail is delivered
  the line, whichever writes failed before it.
\<close>

lemma write_failure_isolated:
  assumes "i < length clients" and "registered (clients ! i)"
    and "chomp raw = ''MSG '' @ text" and "length text \<le> 255" and "live_distinct clients"
  shows "fst (handle_line i raw clients w) = clients \<and>
    (\<forall>f. Close f \<in> set (new_events w (snd (handle_line i raw clients w))) \<longrightarrow>
       f \<in> set (broken w) \<and> f \<noteq> fd (clients ! i)) \<and>
    (\<forall>j < length clients. j \<noteq> i \<and> fd (clients ! j) \<ge> 0 \<and> fd (clients ! j) \<notin> set (broken w) \<longrightarrow>
       delivered (fd (clients ! j)) (new_events w (snd (handle_line i raw clients w))) =
         [''MSG '' @ nick (clients ! i) @ '' '' @ text @ [nl]])"
proof -
  let ?m = "''MSG '' @ nick (clients ! i) @ '' '' @ text @ [nl]"
  let ?es = "broadcast_events (broken w) (fd (clients ! i)) ?m clients"
  have r: "handle_line i raw clients w = (clients, emit ?es w)"
    using assms(2-4) by (rule handle_line_msg)
  have "f \<in> set (broken w) \<and> f \<noteq> fd (clients ! i)" if "Close f \<in> set ?es" for f
    using that by (rule broadcast_events_close)
  then show ?thesis
    using assms(1,5) by (simp add: r broadcast_events_per_recipient)
qed

text \<open>
  C3. That the recipient whose write failed leaves the Connection Set does not hold of the
  code. \<open>send_response\<close> closes the descriptor it was given and can do no more: the entry
  keeps its descriptor 5 and stays in the vector through the cleanup of that turn, and
  the broadcast of the next turn writes to the closed descriptor 5 and closes it again.
\<close>

theorem write_failure_leaves_entry:
  "loop_iteration None [(4, Received (''MSG hi'' @ [nl]))] [alice, dave, bob] lossy_net =
     ([alice, dave, bob],
      \<lparr>broken = [5],
         trace = [SendErr 5 (''MSG alice hi'' @ [nl]), Close 5,
                  SendOk 6 (''MSG alice hi'' @ [nl])]\<rparr>) \<and>
   trace (snd (loop_iteration None [(4, Received (''MSG again'' @ [nl]))] [alice, dave, bob]
      \<lparr>broken = [5],
         trace = [SendErr 5 (''MSG alice hi'' @ [nl]), Close 5,
                  SendOk 6 (''MSG alice hi'' @ [nl])]\<rparr>)) =
     [SendErr 5 (''MSG alice hi'' @ [nl]), Close 5, SendOk 6 (''MSG alice hi'' @ [nl]),
      SendErr 5 (''MSG alice again'' @ [nl]), Close 5, SendOk 6 (''MSG alice again'' @ [nl])]"
  by code_simp

section \<open>The client and its nickname\<close>

text \<open>
  Nothing in \<open>main\<close> or \<open>startCommunication\<close> looks at the nickname before it is sent.
\<close>

lemma client_never_validates:
  assumes "splitHostPort address = Some (host, port)" and "connect_fd env \<ge> 0"
    and "await_greeting [] (greeting env) = Some True" and "\<not> nick_send_fails env"
  shows "client_main [address, nickname] env =
    Some ([Connect host port, SendLine (''NICK '' @ nickname @ [nl])], 0)"
  using assms by (simp add: client_main_def startCommunication_def)

text \<open>
  C2. That the client rejects a nickname outside the pattern before connecting does not
  hold of the code: \<open>isNicknameValid\<close> is defined and never called. With
  a nickname that the pattern rejects, and with one longer than 12 characters, \<open>main\<close>
  still connects and, once greeted, sends the \<open>NICK\<close> line.
\<close>

theorem client_sends_invalid_nickname:
  "\<not> isNicknameValid ''bad nick!'' \<and>
   client_main [''127.0.0.1:9999'', ''bad nick!''] friendly_env =
     Some ([Connect ''127.0.0.1'' ''9999'', SendLine (''NICK bad nick!'' @ [nl])], 0) \<and>
   \<not> isNicknameValid ''abcdefghijklmnop'' \<and>
   client_main [''127.0.0.1:9999'', ''abcdefghijklmnop''] friendly_env =
     Some ([Connect ''127.0.0.1'' ''9999'', SendLine (''NICK abcdefghijklmnop'' @ [nl])], 0)"
  by code_simp

end
